theory Spec2Isabelle
  imports Main "HOL-Library.AList" "HOL-Library.Char_ord" "HOL-Library.List_Lexorder"
    "HOL-Library.Multiset"
begin

section \<open>JavaScript values\<close>

text \<open>
  The store of \<^verbatim>\<open>StoryStore.ts\<close> handles stories, annotations and module exports as
  plain JavaScript objects. The model keeps the distinctions the code makes: a value is a
  function (\<^verbatim>\<open>typeof value === 'function'\<close>), an array (\<^verbatim>\<open>Array.isArray(value)\<close>),
  an object with named properties, or a primitive. Arrays hold strings (the tags of a
  story); a function is represented by its source text, which is what JavaScript prints
  for it. An object is the list of its own properties in enumeration order
  (\<^verbatim>\<open>Object.entries\<close>).
\<close>

type_synonym StoryId = string
type_synonym Path = string
type_synonym ComponentTitle = string

datatype jsval =
    JUndefined
  | JNull
  | JBool bool
  | JStr string
  | JFun string
  | JArr "string list"
  | JObj "(string \<times> jsval) list"

type_synonym jsobj = "(string \<times> jsval) list"

text \<open>
  What the code throws or rejects with: \<^verbatim>\<open>new Error(message)\<close>, the \<^verbatim>\<open>TypeError\<close> of
  a property read on \<^verbatim>\<open>undefined\<close>, and the failure of the index store for an unknown
  identifier.
\<close>

datatype error = Error string | TypeError string | NotFound string

text \<open>
  A promise-returning operation either throws before it returns a promise, or returns a
  promise that resolves or rejects.
\<close>

datatype 'a outcome = Resolved 'a | Rejected error | Threw error

text \<open>\<^verbatim>\<open>object.key\<close> on an object: \<^verbatim>\<open>undefined\<close> when the property is absent.\<close>

definition get_prop :: "jsobj \<Rightarrow> string \<Rightarrow> jsval" where
  "get_prop ob k = (case map_of ob k of None \<Rightarrow> JUndefined | Some v \<Rightarrow> v)"

text \<open>
  \<^verbatim>\<open>value.key\<close> on any value: a \<^verbatim>\<open>TypeError\<close> on \<^verbatim>\<open>undefined\<close> and \<^verbatim>\<open>null\<close>,
  the property of an object, \<^verbatim>\<open>undefined\<close> for a named property of anything else.
\<close>

definition get_member :: "jsval \<Rightarrow> string \<Rightarrow> error + jsval" where
  "get_member v k =
     (case v of
        JUndefined \<Rightarrow> Inl (TypeError (''Cannot read properties of undefined (reading '' @ k @ '')''))
      | JNull \<Rightarrow> Inl (TypeError (''Cannot read properties of null (reading '' @ k @ '')''))
      | JObj ob \<Rightarrow> Inr (get_prop ob k)
      | _ \<Rightarrow> Inr JUndefined)"

text \<open>Truthiness, as \<^verbatim>\<open>!value\<close>, \<^verbatim>\<open>&&\<close> and \<^verbatim>\<open>if (value)\<close> read it.\<close>

fun truthy :: "jsval \<Rightarrow> bool" where
  "truthy JUndefined = False"
| "truthy JNull = False"
| "truthy (JBool b) = b"
| "truthy (JStr s) = (s \<noteq> [])"
| "truthy (JFun f) = True"
| "truthy (JArr xs) = True"
| "truthy (JObj ob) = True"

fun join_comma :: "string list \<Rightarrow> string" where
  "join_comma [] = []"
| "join_comma [x] = x"
| "join_comma (x # y # ys) = x @ '','' @ join_comma (y # ys)"

text \<open>The string a value becomes when it is used as a property key (\<^verbatim>\<open>record[value]\<close>).\<close>

fun to_key :: "jsval \<Rightarrow> string" where
  "to_key JUndefined = ''undefined''"
| "to_key JNull = ''null''"
| "to_key (JBool b) = (if b then ''true'' else ''false'')"
| "to_key (JStr s) = s"
| "to_key (JFun f) = f"
| "to_key (JArr xs) = join_comma xs"
| "to_key (JObj ob) = ''[object Object]''"

section \<open>Memoization\<close>

text \<open>
  Modelled from the spec: \<^verbatim>\<open>memoize(limit)(fn)\<close> comes from the \<^verbatim>\<open>memoizerific\<close>
  package, which is not among the sources. The spec describes it as a bounded
  memoization that retains at most the \<^verbatim>\<open>limit\<close> most recently used distinct
  argument-identity results, with least-recently-used eviction, keyed by the identity of
  the arguments.

  An object is a pair of its identity and its content. The arguments of the memoized
  functions are immutable once built, so equality of such pairs is the identity
  comparison of the code. The result of a computation is a new object: its identity is
  the number of computations the cache made before it. \<open>lru\<close> lists the retained
  results, the most recently used first; \<open>computed\<close> counts the calls of \<open>fn\<close>.
\<close>

record ('k, 'v) memo =
  limit :: nat
  fn :: "'k \<Rightarrow> error + 'v"
  lru :: "('k \<times> nat \<times> 'v) list"
  computed :: nat

definition memoize :: "nat \<Rightarrow> ('k \<Rightarrow> error + 'v) \<Rightarrow> ('k, 'v) memo" where
  "memoize n f = \<lparr>limit = n, fn = f, lru = [], computed = 0\<rparr>"

definition memo_call :: "('k, 'v) memo \<Rightarrow> 'k \<Rightarrow> (error + nat \<times> 'v) \<times> ('k, 'v) memo" where
  "memo_call m k =
     (case map_of (lru m) k of
        Some v \<Rightarrow> (Inr v, m\<lparr>lru := (k, v) # filter (\<lambda>e. fst e \<noteq> k) (lru m)\<rparr>)
      | None \<Rightarrow>
          (case fn m k of
             Inl e \<Rightarrow> (Inl e, m\<lparr>computed := Suc (computed m)\<rparr>)
           | Inr c \<Rightarrow>
               (Inr (computed m, c),
                m\<lparr>lru := take (limit m) ((k, (computed m, c)) # lru m),
                  computed := Suc (computed m)\<rparr>)))"

text \<open>A sequence of calls, results dropped: the cache after the calls.\<close>

fun memo_calls :: "('k, 'v) memo \<Rightarrow> 'k list \<Rightarrow> ('k, 'v) memo" where
  "memo_calls m [] = m"
| "memo_calls m (k # ks) = memo_calls (snd (memo_call m k)) ks"

section \<open>The index store\<close>

datatype EntryType = story | docs

record IndexEntry =
  entry_type :: EntryType
  importPath :: Path
  title :: ComponentTitle

text \<open>\<^verbatim>\<open>storyIndex.entries\<close>: the entries by identifier, in enumeration order.\<close>

type_synonym StoryIndex = "(StoryId \<times> IndexEntry) list"

text \<open>
  Modelled from the spec: the class \<^verbatim>\<open>StoryIndexStore\<close> is not among the sources. The
  spec gives its contract: \<^verbatim>\<open>entryFor(id)\<close> returns the entry of the identifier and
  fails with NotFound when the identifier is absent. An index store built without an
  index has no entries.
\<close>

definition StoryIndexStore_new :: "StoryIndex option \<Rightarrow> StoryIndex" where
  "StoryIndexStore_new storyIndex = (case storyIndex of None \<Rightarrow> [] | Some entries \<Rightarrow> entries)"

definition StoryIndexStore_storyIdToEntry :: "StoryIndex \<Rightarrow> StoryId \<Rightarrow> error + IndexEntry" where
  "StoryIndexStore_storyIdToEntry entries storyId =
     (case map_of entries storyId of None \<Rightarrow> Inl (NotFound storyId) | Some e \<Rightarrow> Inr e)"

section \<open>The argument store\<close>

definition story_id :: "jsobj \<Rightarrow> StoryId" where
  "story_id st = to_key (get_prop st ''id'')"

text \<open>
  Modelled from the spec: the class \<^verbatim>\<open>ArgsStore\<close> is not among the sources. The spec:
  \<^verbatim>\<open>setInitial(preparedStory)\<close> seeds the defaults of the identifier only if none exist
  yet.
\<close>

definition setInitial :: "(StoryId \<rightharpoonup> jsval) \<Rightarrow> jsobj \<Rightarrow> (StoryId \<rightharpoonup> jsval)" where
  "setInitial a st =
     (case a (story_id st) of
        None \<Rightarrow> a(story_id st \<mapsto> get_prop st ''initialArgs'')
      | Some current \<Rightarrow> a)"

section \<open>The story store\<close>

text \<open>
  A module's exports, as the loader gives them: an object with its identity. The
  loader \<^verbatim>\<open>importFn\<close> returns a promise; the model gives, for a path, the time at
  which the promise settles and whether it rejects or resolves with the exports.
\<close>

type_synonym ModuleExports = "nat \<times> jsobj"
type_synonym ModuleImportFn = "Path \<Rightarrow> nat \<times> (error + ModuleExports)"

record CSFFile_content =
  meta :: jsobj
  stories :: "(StoryId \<times> jsobj) list"

type_synonym CSFFile = "nat \<times> CSFFile_content"
type_synonym PreparedStory = "nat \<times> jsobj"

text \<open>
  The arguments of the two memoized functions. The story annotations and the component
  annotations of a CSF file are objects built with the file: the annotations of story
  \<open>i\<close> of the file with identity \<open>r\<close> are identified by \<open>(r, i)\<close>, its \<open>meta\<close> by
  \<open>r\<close>.
\<close>

type_synonym csf_key = "ModuleExports \<times> Path \<times> ComponentTitle"
type_synonym story_key = "((nat \<times> StoryId) \<times> jsobj) \<times> (nat \<times> jsobj) \<times> (nat \<times> jsobj)"

text \<open>
  The operations that wait for \<^verbatim>\<open>initializationPromise\<close> before they act, and what
  they resolve with.
\<close>

datatype gated_op =
    LoadStory StoryId
  | StoryIdToEntry StoryId
  | OnStoriesChanged "ModuleImportFn option" "StoryIndex option"
  | CacheAllCSFFiles

datatype op_result = RStory PreparedStory | REntry IndexEntry | RVoid

text \<open>What the loader sees: a call of \<^verbatim>\<open>importFn\<close>, and later its promise settling.\<close>

datatype event = Called Path | Settled Path

text \<open>
  The fields of the class. \<open>initialized\<close> says that \<^verbatim>\<open>initializationPromise\<close> is
  resolved. \<open>loads\<close> records the loader's events and is read by no operation.
\<close>

record StoryStore =
  storyIndex :: "StoryIndex option"
  importFn :: "ModuleImportFn option"
  projectAnnotations :: "(nat \<times> jsobj) option"
  args :: "StoryId \<rightharpoonup> jsval"
  hooks :: "StoryId set"
  cachedCSFFiles :: "(Path \<times> CSFFile) list option"
  processCSFFileWithCache :: "(csf_key, CSFFile_content) memo"
  prepareStoryWithCache :: "(story_key, jsobj) memo"
  initialized :: bool
  loads :: "event list"

definition CSF_CACHE_SIZE :: nat where
  "CSF_CACHE_SIZE = 1000"

definition STORY_CACHE_SIZE :: nat where
  "STORY_CACHE_SIZE = 10000"

definition EXTRACT_BATCH_SIZE :: nat where
  "EXTRACT_BATCH_SIZE = 20"

text \<open>
  The constructor. \<^verbatim>\<open>processCSFFile\<close> and \<^verbatim>\<open>prepareStory\<close> are imported from
  \<^verbatim>\<open>./csf\<close>, which is not among the sources: they are parameters of the model.
\<close>

definition StoryStore_new ::
  "(ModuleExports \<Rightarrow> Path \<Rightarrow> ComponentTitle \<Rightarrow> error + CSFFile_content) \<Rightarrow>
   ((nat \<times> StoryId) \<times> jsobj \<Rightarrow> nat \<times> jsobj \<Rightarrow> nat \<times> jsobj \<Rightarrow> error + jsobj) \<Rightarrow> StoryStore" where
  "StoryStore_new processCSFFile prepareStory =
     \<lparr>storyIndex = None, importFn = None, projectAnnotations = None,
      args = Map.empty, hooks = {}, cachedCSFFiles = None,
      processCSFFileWithCache =
        memoize CSF_CACHE_SIZE (\<lambda>(moduleExports, path, t). processCSFFile moduleExports path t),
      prepareStoryWithCache =
        memoize STORY_CACHE_SIZE (\<lambda>(sa, ca, pa). prepareStory sa ca pa),
      initialized = False, loads = []\<rparr>"

subsection \<open>Loading one CSF file\<close>

text \<open>
  \<^verbatim>\<open>loadCSFFileByStoryId\<close> in two steps: up to the call of \<^verbatim>\<open>importFn\<close>, which
  happens when the operation is called, and the \<^verbatim>\<open>then\<close> callback, which runs when
  the loader's promise settles.
\<close>

record Load =
  load_path :: Path
  load_title :: ComponentTitle
  settles_at :: nat
  loaded :: "error + ModuleExports"

definition start_load :: "StoryStore \<Rightarrow> StoryId \<Rightarrow> error + Load \<times> StoryStore" where
  "start_load s storyId =
     (case storyIndex s of
        None \<Rightarrow> Inl (Error ''loadCSFFileByStoryId called before initialization'')
      | Some entries \<Rightarrow>
          (case importFn s of
             None \<Rightarrow> Inl (Error ''loadCSFFileByStoryId called before initialization'')
           | Some f \<Rightarrow>
               (case StoryIndexStore_storyIdToEntry entries storyId of
                  Inl e \<Rightarrow> Inl e
                | Inr entry \<Rightarrow>
                    Inr (\<lparr>load_path = importPath entry, load_title = title entry,
                          settles_at = fst (f (importPath entry)),
                          loaded = snd (f (importPath entry))\<rparr>,
                         s\<lparr>loads := loads s @ [Called (importPath entry)]\<rparr>))))"

definition settle_load :: "StoryStore \<Rightarrow> Load \<Rightarrow> (error + CSFFile) \<times> StoryStore" where
  "settle_load s l =
     (let s1 = s\<lparr>loads := loads s @ [Settled (load_path l)]\<rparr> in
      case loaded l of
        Inl e \<Rightarrow> (Inl e, s1)
      | Inr moduleExports \<Rightarrow>
          (let r = memo_call (processCSFFileWithCache s1) (moduleExports, load_path l, load_title l)
           in (fst r, s1\<lparr>processCSFFileWithCache := snd r\<rparr>)))"

definition loadCSFFileByStoryId :: "StoryStore \<Rightarrow> StoryId \<Rightarrow> CSFFile outcome \<times> StoryStore" where
  "loadCSFFileByStoryId s storyId =
     (case start_load s storyId of
        Inl e \<Rightarrow> (Threw e, s)
      | Inr (l, s1) \<Rightarrow>
          (case settle_load s1 l of
             (Inl e, s2) \<Rightarrow> (Rejected e, s2)
           | (Inr csfFile, s2) \<Rightarrow> (Resolved csfFile, s2)))"

subsection \<open>Loading all CSF files in batches\<close>

text \<open>
  One batch: \<^verbatim>\<open>remainingImportPaths.slice(0, batchSize).map(...)\<close> calls
  \<^verbatim>\<open>loadCSFFileByStoryId\<close> for each element in turn, so every load of the batch is
  started before any of them settles. The loads then settle in the order of their
  settling times (in the order of the batch among equal times).
\<close>

fun start_all ::
  "StoryStore \<Rightarrow> (Path \<times> StoryId) list \<Rightarrow> error option \<times> (Path \<times> Load) list \<times> StoryStore" where
  "start_all s [] = (None, [], s)"
| "start_all s ((path, storyId) # rest) =
     (case start_load s storyId of
        Inl e \<Rightarrow> (Some e, [], s)
      | Inr (l, s1) \<Rightarrow>
          (case start_all s1 rest of (thrown, started, s2) \<Rightarrow> (thrown, (path, l) # started, s2)))"

definition completion_order :: "(Path \<times> Load) list \<Rightarrow> (nat \<times> Path \<times> Load) list" where
  "completion_order started =
     sort_key (\<lambda>(i, path, l). settles_at l) (zip [0..<length started] started)"

fun settle_all ::
  "StoryStore \<Rightarrow> (nat \<times> Path \<times> Load) list \<Rightarrow> (nat \<times> Path \<times> (error + CSFFile)) list \<times> StoryStore" where
  "settle_all s [] = ([], s)"
| "settle_all s ((i, path, l) # rest) =
     (case settle_load s l of
        (r, s1) \<Rightarrow> (case settle_all s1 rest of (rs, s2) \<Rightarrow> ((i, path, r) # rs, s2)))"

text \<open>
  \<^verbatim>\<open>SynchronousPromise.all\<close> over the promises of a batch, given their results in the
  order in which they settled: it rejects with the first rejection, and otherwise
  resolves with the values in the order of the array of promises.
\<close>

fun first_rejection :: "(nat \<times> Path \<times> (error + CSFFile)) list \<Rightarrow> error option" where
  "first_rejection [] = None"
| "first_rejection ((i, path, Inl e) # rest) = Some e"
| "first_rejection ((i, path, Inr csfFile) # rest) = first_rejection rest"

fun fulfilled :: "(nat \<times> Path \<times> (error + CSFFile)) list \<Rightarrow> (nat \<times> Path \<times> CSFFile) list" where
  "fulfilled [] = []"
| "fulfilled ((i, path, Inl e) # rest) = fulfilled rest"
| "fulfilled ((i, path, Inr csfFile) # rest) = (i, path, csfFile) # fulfilled rest"

definition promise_all ::
  "(nat \<times> Path \<times> (error + CSFFile)) list \<Rightarrow> ((Path \<times> CSFFile) list) outcome" where
  "promise_all settled =
     (case first_rejection settled of
        Some e \<Rightarrow> Rejected e
      | None \<Rightarrow> Resolved (map snd (sort_key fst (fulfilled settled))))"

definition loadBatch ::
  "StoryStore \<Rightarrow> (Path \<times> StoryId) list \<Rightarrow> ((Path \<times> CSFFile) list) outcome \<times> StoryStore" where
  "loadBatch s batch =
     (case start_all s batch of
        (thrown, started, s1) \<Rightarrow>
          (case settle_all s1 (completion_order started) of
             (settled, s2) \<Rightarrow>
               (case thrown of Some e \<Rightarrow> (Threw e, s2) | None \<Rightarrow> (promise_all settled, s2))))"

text \<open>
  \<^verbatim>\<open>loadInBatches\<close>: the first \<^verbatim>\<open>batchSize\<close> elements are loaded, and the rest only
  in the \<^verbatim>\<open>then\<close> callback of the batch's \<^verbatim>\<open>SynchronousPromise.all\<close>. An exception
  in that callback rejects the promise. With \<^verbatim>\<open>batchSize\<close> 0 the recursion never
  ends: the result is \<open>None\<close>.
\<close>

partial_function (option) loadInBatches ::
  "nat \<Rightarrow> StoryStore \<Rightarrow> (Path \<times> StoryId) list \<Rightarrow>
   (((Path \<times> CSFFile) list) outcome \<times> StoryStore) option" where
  "loadInBatches batchSize s remainingImportPaths =
     (if remainingImportPaths = [] then Some (Resolved [], s)
      else
        (case loadBatch s (take batchSize remainingImportPaths) of
           (Threw e, s1) \<Rightarrow> Some (Threw e, s1)
         | (Rejected e, s1) \<Rightarrow> Some (Rejected e, s1)
         | (Resolved firstResults, s1) \<Rightarrow>
             Option.bind (loadInBatches batchSize s1 (drop batchSize remainingImportPaths))
               (\<lambda>(rest, s2).
                  Some (case rest of
                          Resolved restResults \<Rightarrow> Resolved (firstResults @ restResults)
                        | Rejected e \<Rightarrow> Rejected e
                        | Threw e \<Rightarrow> Rejected e,
                        s2))))"

lemma loadInBatches_Nil [code, simp]:
  "loadInBatches batchSize s [] = Some (Resolved [], s)"
  by (subst loadInBatches.simps) simp

lemma loadInBatches_Cons [code]:
  "loadInBatches batchSize s (x # xs) =
     (case loadBatch s (take batchSize (x # xs)) of
        (Threw e, s1) \<Rightarrow> Some (Threw e, s1)
      | (Rejected e, s1) \<Rightarrow> Some (Rejected e, s1)
      | (Resolved firstResults, s1) \<Rightarrow>
          Option.bind (loadInBatches batchSize s1 (drop batchSize (x # xs)))
            (\<lambda>(rest, s2).
               Some (case rest of
                       Resolved restResults \<Rightarrow> Resolved (firstResults @ restResults)
                     | Rejected e \<Rightarrow> Rejected e
                     | Threw e \<Rightarrow> Rejected e,
                     s2)))"
  by (subst loadInBatches.simps) simp

definition loadAllCSFFiles ::
  "nat \<Rightarrow> StoryStore \<Rightarrow> (((Path \<times> CSFFile) list) outcome \<times> StoryStore) option" where
  "loadAllCSFFiles batchSize s =
     (case storyIndex s of
        None \<Rightarrow> Some (Threw (Error ''loadAllCSFFiles called before initialization''), s)
      | Some entries \<Rightarrow>
          Option.bind
            (loadInBatches batchSize s (map (\<lambda>(storyId, entry). (importPath entry, storyId)) entries))
            (\<lambda>(r, s1).
               Some (case r of
                       Resolved list \<Rightarrow>
                         Resolved (fold (\<lambda>(path, csfFile) acc. AList.update path csfFile acc) list [])
                     | Rejected e \<Rightarrow> Rejected e
                     | Threw e \<Rightarrow> Threw e,
                     s1)))"

subsection \<open>Preparing a story\<close>

text \<open>
  The \<^verbatim>\<open>csfFile\<close> argument is \<open>None\<close> when the caller read it from an absent key of
  \<^verbatim>\<open>cachedCSFFiles\<close>: it is \<^verbatim>\<open>undefined\<close> then, and \<^verbatim>\<open>csfFile.stories\<close> is a
  \<^verbatim>\<open>TypeError\<close>.
\<close>

definition storyFromCSFFile ::
  "StoryStore \<Rightarrow> StoryId \<Rightarrow> CSFFile option \<Rightarrow> (error + PreparedStory) \<times> StoryStore" where
  "storyFromCSFFile s storyId csfFile =
     (case projectAnnotations s of
        None \<Rightarrow> (Inl (Error ''storyFromCSFFile called before initialization''), s)
      | Some pa \<Rightarrow>
          (case csfFile of
             None \<Rightarrow> (Inl (TypeError ''Cannot read properties of undefined (reading stories)''), s)
           | Some (r, file) \<Rightarrow>
               (case map_of (stories file) storyId of
                  None \<Rightarrow>
                    (Inl (Error (''Didn't find '' @ [CHR 0x27] @ storyId @ [CHR 0x27] @
                                 '' in CSF file, this is unexpected'')), s)
                | Some storyAnnotations \<Rightarrow>
                    (let c = memo_call (prepareStoryWithCache s)
                               (((r, storyId), storyAnnotations), (r, meta file), pa)
                     in case fst c of
                          Inl e \<Rightarrow> (Inl e, s\<lparr>prepareStoryWithCache := snd c\<rparr>)
                        | Inr st \<Rightarrow>
                            (Inr st,
                             s\<lparr>prepareStoryWithCache := snd c,
                               args := setInitial (args s) (snd st),
                               hooks := insert (story_id (snd st)) (hooks s)\<rparr>)))))"

subsection \<open>The initialization gate\<close>

definition cacheAllCSFFiles_body :: "StoryStore \<Rightarrow> (op_result outcome \<times> StoryStore) option" where
  "cacheAllCSFFiles_body s =
     Option.bind (loadAllCSFFiles EXTRACT_BATCH_SIZE s)
       (\<lambda>(r, s1).
          Some (case r of
                  Resolved csfFiles \<Rightarrow> (Resolved RVoid, s1\<lparr>cachedCSFFiles := Some csfFiles\<rparr>)
                | Rejected e \<Rightarrow> (Rejected e, s1)
                | Threw e \<Rightarrow> (Rejected e, s1)))"

text \<open>The two assignments of \<^verbatim>\<open>onStoriesChanged\<close>.\<close>

definition replace_inputs ::
  "ModuleImportFn option \<Rightarrow> StoryIndex option \<Rightarrow> StoryStore \<Rightarrow> error + StoryStore" where
  "replace_inputs f i s =
     (let s1 = (case f of None \<Rightarrow> s | Some g \<Rightarrow> s\<lparr>importFn := Some g\<rparr>) in
      case i of
        None \<Rightarrow> Inr s1
      | Some entries \<Rightarrow>
          (case storyIndex s1 of
             None \<Rightarrow> Inl (TypeError ''Cannot set properties of undefined (setting entries)'')
           | Some old \<Rightarrow> Inr (s1\<lparr>storyIndex := Some entries\<rparr>)))"

text \<open>
  What each of these operations does after \<^verbatim>\<open>initializationPromise\<close>. These are
  \<^verbatim>\<open>async\<close> functions or \<^verbatim>\<open>then\<close> callbacks: an exception rejects their promise.
\<close>

definition run_gated :: "gated_op \<Rightarrow> StoryStore \<Rightarrow> (op_result outcome \<times> StoryStore) option" where
  "run_gated op s =
     (case op of
        LoadStory storyId \<Rightarrow>
          Some (case loadCSFFileByStoryId s storyId of
                  (Threw e, s1) \<Rightarrow> (Rejected e, s1)
                | (Rejected e, s1) \<Rightarrow> (Rejected e, s1)
                | (Resolved csfFile, s1) \<Rightarrow>
                    (case storyFromCSFFile s1 storyId (Some csfFile) of
                       (Inl e, s2) \<Rightarrow> (Rejected e, s2)
                     | (Inr st, s2) \<Rightarrow> (Resolved (RStory st), s2)))
      | StoryIdToEntry storyId \<Rightarrow>
          Some (case storyIndex s of
                  None \<Rightarrow>
                    (Rejected (TypeError ''Cannot read properties of undefined (reading storyIdToEntry)''), s)
                | Some entries \<Rightarrow>
                    (case StoryIndexStore_storyIdToEntry entries storyId of
                       Inl e \<Rightarrow> (Rejected e, s)
                     | Inr entry \<Rightarrow> (Resolved (REntry entry), s)))
      | OnStoriesChanged f i \<Rightarrow>
          (case replace_inputs f i s of
             Inl e \<Rightarrow> Some (Rejected e, (case f of None \<Rightarrow> s | Some g \<Rightarrow> s\<lparr>importFn := Some g\<rparr>))
           | Inr s1 \<Rightarrow>
               (case cachedCSFFiles s1 of
                  None \<Rightarrow> Some (Resolved RVoid, s1)
                | Some old \<Rightarrow> cacheAllCSFFiles_body s1))
      | CacheAllCSFFiles \<Rightarrow> cacheAllCSFFiles_body s)"

text \<open>
  \<^verbatim>\<open>await this.initializationPromise\<close> and \<^verbatim>\<open>this.initializationPromise.then\<close>: the
  operation runs when the promise is resolved. While the promise is pending the
  operation does nothing and its own promise stays pending: its result is not there
  (\<open>None\<close>) and the store is as it was. The model follows one operation at a time, to
  its end. It does not follow a pending operation beyond this point: its continuation
  runs after \<^verbatim>\<open>initialize\<close> has returned, interleaved with the loads that are in
  flight then.
\<close>

definition gate :: "gated_op \<Rightarrow> StoryStore \<Rightarrow> (op_result outcome option \<times> StoryStore) option" where
  "gate op s =
     (if initialized s then map_option (\<lambda>(r, s1). (Some r, s1)) (run_gated op s)
      else Some (None, s))"

definition loadStory :: "StoryStore \<Rightarrow> StoryId \<Rightarrow> (op_result outcome option \<times> StoryStore) option" where
  "loadStory s storyId = gate (LoadStory storyId) s"

definition storyIdToEntry :: "StoryStore \<Rightarrow> StoryId \<Rightarrow> (op_result outcome option \<times> StoryStore) option" where
  "storyIdToEntry s storyId = gate (StoryIdToEntry storyId) s"


definition cacheAllCSFFiles :: "StoryStore \<Rightarrow> (op_result outcome option \<times> StoryStore) option" where
  "cacheAllCSFFiles s = gate CacheAllCSFFiles s"

text \<open>
  \<^verbatim>\<open>initialize\<close> sets the index and the loader, resolves the promise and returns the
  promise of \<^verbatim>\<open>cacheAllCSFFiles\<close>, which runs at once as the promise is resolved, or
  a resolved promise. The result is the outcome of the returned promise and the store.
\<close>

definition resolveInitializationPromise :: "StoryStore \<Rightarrow> StoryStore" where
  "resolveInitializationPromise s = s\<lparr>initialized := True\<rparr>"

definition initialize ::
  "StoryIndex option \<Rightarrow> ModuleImportFn \<Rightarrow> bool \<Rightarrow> StoryStore \<Rightarrow>
   (op_result outcome \<times> StoryStore) option" where
  "initialize storyIndex' importFn' cache s =
     (let s1 = resolveInitializationPromise
                 (s\<lparr>storyIndex := Some (StoryIndexStore_new storyIndex'), importFn := Some importFn'\<rparr>)
      in if cache then run_gated CacheAllCSFFiles s1 else Some (Resolved RVoid, s1))"

subsection \<open>Extraction\<close>

text \<open>The inner \<^verbatim>\<open>reduce\<close> of \<^verbatim>\<open>extract\<close>, over the properties of a prepared story.\<close>

definition extract_story :: "jsobj \<Rightarrow> jsobj" where
  "extract_story st =
     fold (\<lambda>(key, v) storyAcc.
             if key = ''moduleExport'' then storyAcc
             else (case v of
                     JFun f \<Rightarrow> storyAcc
                   | JArr xs \<Rightarrow> AList.update key (JArr (sort xs)) storyAcc
                   | _ \<Rightarrow> AList.update key v storyAcc))
       st [(''args'', get_prop st ''initialArgs'')]"

text \<open>The outer \<^verbatim>\<open>reduce\<close>, over the entries of the index.\<close>

fun extract_reduce ::
  "bool \<Rightarrow> (Path \<times> CSFFile) list \<Rightarrow> (StoryId \<times> IndexEntry) list \<Rightarrow> (StoryId \<times> jsobj) list \<Rightarrow>
   StoryStore \<Rightarrow> (error + (StoryId \<times> jsobj) list) \<times> StoryStore" where
  "extract_reduce includeDocsOnly cached [] acc s = (Inr acc, s)"
| "extract_reduce includeDocsOnly cached ((storyId, entry) # rest) acc s =
     (if entry_type entry = docs then extract_reduce includeDocsOnly cached rest acc s
      else
        (case storyFromCSFFile s storyId (map_of cached (importPath entry)) of
           (Inl e, s1) \<Rightarrow> (Inl e, s1)
         | (Inr st, s1) \<Rightarrow>
             (if includeDocsOnly
              then extract_reduce includeDocsOnly cached rest
                     (AList.update storyId (extract_story (snd st)) acc) s1
              else
                (case get_member (get_prop (snd st) ''parameters'') ''docsOnly'' of
                   Inl e \<Rightarrow> (Inl e, s1)
                 | Inr docsOnly \<Rightarrow>
                     (if truthy docsOnly then extract_reduce includeDocsOnly cached rest acc s1
                      else extract_reduce includeDocsOnly cached rest
                             (AList.update storyId (extract_story (snd st)) acc) s1)))))"

definition extractStories ::
  "bool \<Rightarrow> StoryStore \<Rightarrow> (error + (StoryId \<times> jsobj) list) \<times> StoryStore" where
  "extractStories includeDocsOnly s =
     (case storyIndex s of
        None \<Rightarrow> (Inl (Error ''extract called before initialization''), s)
      | Some entries \<Rightarrow>
          (case cachedCSFFiles s of
             None \<Rightarrow>
               (Inl (Error ''Cannot call extract() unless you call cacheAllCSFFiles() first.''), s)
           | Some cached \<Rightarrow> extract_reduce includeDocsOnly cached entries [] s))"

text \<open>
  \<^verbatim>\<open>fromId\<close>: \<open>None\<close> is the \<^verbatim>\<open>null\<close> it returns from its \<^verbatim>\<open>catch\<close>. The bound
  story is the prepared story with a \<^verbatim>\<open>storyFn\<close> property.
\<close>

definition fromId :: "StoryStore \<Rightarrow> StoryId \<Rightarrow> (error + jsobj option) \<times> StoryStore" where
  "fromId s storyId =
     (case storyIndex s of
        None \<Rightarrow> (Inl (Error ''fromId called before initialization''), s)
      | Some entries \<Rightarrow>
          (case cachedCSFFiles s of
             None \<Rightarrow>
               (Inl (Error ''Cannot call fromId/raw() unless you call cacheAllCSFFiles() first.''), s)
           | Some cached \<Rightarrow>
               (case StoryIndexStore_storyIdToEntry entries storyId of
                  Inl e \<Rightarrow> (Inr None, s)
                | Inr entry \<Rightarrow>
                    (case storyFromCSFFile s storyId (map_of cached (importPath entry)) of
                       (Inl e, s1) \<Rightarrow> (Inl e, s1)
                     | (Inr st, s1) \<Rightarrow>
                         (Inr (Some (AList.update ''storyFn'' (JFun ''storyFn'') (snd st))), s1)))))"

subsection \<open>Invariants of the memoization\<close>

text \<open>The keys used more recently than k.\<close>
definition newer :: "('k \<times> 'v) list \<Rightarrow> 'k \<Rightarrow> 'k set" where
  "newer xs k = set (takeWhile (\<lambda>x. x \<noteq> k) (map fst xs))"

definition retains :: "('k, 'v) memo \<Rightarrow> 'k \<Rightarrow> nat \<times> 'v \<Rightarrow> 'k set \<Rightarrow> bool" where
  "retains m k v S \<longleftrightarrow>
     distinct (map fst (lru m)) \<and> map_of (lru m) k = Some v \<and> newer (lru m) k \<subseteq> S"

definition memo_wf :: "('k, 'v) memo \<Rightarrow> bool" where
  "memo_wf m \<longleftrightarrow>
     distinct (map fst (lru m)) \<and> distinct (map (\<lambda>e. fst (snd e)) (lru m)) \<and>
     (\<forall>k r c. (k, r, c) \<in> set (lru m) \<longrightarrow> r < computed m)"

text \<open>The identity r was given to the result for key k, and to no other.\<close>
definition owned :: "('k, 'v) memo \<Rightarrow> 'k \<Rightarrow> nat \<Rightarrow> bool" where
  "owned m k r \<longleftrightarrow> r < computed m \<and> (\<forall>k' c. (k', r, c) \<in> set (lru m) \<longrightarrow> k' = k)"

subsection \<open>Extraction without the caches\<close>

text \<open>
  What \<^verbatim>\<open>storyFromCSFFile\<close> and the outer \<^verbatim>\<open>reduce\<close> of \<^verbatim>\<open>extract\<close> compute when
  \<^verbatim>\<open>prepareStory\<close> is called directly: the proofs relate the store's operations to
  these functions. A cache is consistent when each result it holds is what its function
  returns for the key.
\<close>

definition memo_consistent :: "('k, 'v) memo \<Rightarrow> bool" where
  "memo_consistent m \<longleftrightarrow> (\<forall>k r c. (k, r, c) \<in> set (lru m) \<longrightarrow> fn m k = Inr c)"

definition prepare_pure ::
  "(story_key \<Rightarrow> error + jsobj) \<Rightarrow> (nat \<times> jsobj) option \<Rightarrow> StoryId \<Rightarrow> CSFFile option \<Rightarrow> error + jsobj" where
  "prepare_pure prepare pa storyId csfFile =
     (case pa of
        None \<Rightarrow> Inl (Error ''storyFromCSFFile called before initialization'')
      | Some pa' \<Rightarrow>
          (case csfFile of
             None \<Rightarrow> Inl (TypeError ''Cannot read properties of undefined (reading stories)'')
           | Some (r, file) \<Rightarrow>
               (case map_of (stories file) storyId of
                  None \<Rightarrow>
                    Inl (Error (''Didn't find '' @ [CHR 0x27] @ storyId @ [CHR 0x27] @
                                '' in CSF file, this is unexpected''))
                | Some storyAnnotations \<Rightarrow>
                    prepare (((r, storyId), storyAnnotations), (r, meta file), pa'))))"

fun extract_pure ::
  "bool \<Rightarrow> (story_key \<Rightarrow> error + jsobj) \<Rightarrow> (nat \<times> jsobj) option \<Rightarrow> (Path \<times> CSFFile) list \<Rightarrow>
   (StoryId \<times> IndexEntry) list \<Rightarrow> (StoryId \<times> jsobj) list \<Rightarrow> error + (StoryId \<times> jsobj) list" where
  "extract_pure includeDocsOnly prepare pa cached [] acc = Inr acc"
| "extract_pure includeDocsOnly prepare pa cached ((storyId, entry) # rest) acc =
     (if entry_type entry = docs then extract_pure includeDocsOnly prepare pa cached rest acc
      else
        (case prepare_pure prepare pa storyId (map_of cached (importPath entry)) of
           Inl e \<Rightarrow> Inl e
         | Inr st \<Rightarrow>
             (if includeDocsOnly
              then extract_pure includeDocsOnly prepare pa cached rest
                     (AList.update storyId (extract_story st) acc)
              else
                (case get_member (get_prop st ''parameters'') ''docsOnly'' of
                   Inl e \<Rightarrow> Inl e
                 | Inr docsOnly \<Rightarrow>
                     (if truthy docsOnly then extract_pure includeDocsOnly prepare pa cached rest acc
                      else extract_pure includeDocsOnly prepare pa cached rest
                             (AList.update storyId (extract_story st) acc))))))"

text \<open>
  A prepared story is an object, so its property names are distinct, and the type
  \<^verbatim>\<open>PreparedStory\<close> has no property named \<^verbatim>\<open>args\<close>.
\<close>

definition story_object :: "jsobj \<Rightarrow> bool" where
  "story_object st \<longleftrightarrow> distinct (map fst st) \<and> ''args'' \<notin> fst ` set st"

text \<open>What one step of the inner \<^verbatim>\<open>reduce\<close> leaves under the key it visits.\<close>

definition extract_field :: "string \<Rightarrow> jsval \<Rightarrow> jsval option \<Rightarrow> jsval option" where
  "extract_field k v old =
     (if k = ''moduleExport'' then old
      else (case v of JFun f \<Rightarrow> old | JArr xs \<Rightarrow> Some (JArr (sort xs)) | _ \<Rightarrow> Some v))"

text \<open>What one step of the outer \<^verbatim>\<open>reduce\<close> leaves under the identifier it visits.\<close>

definition expected_view ::
  "bool \<Rightarrow> (story_key \<Rightarrow> error + jsobj) \<Rightarrow> (nat \<times> jsobj) option \<Rightarrow> (Path \<times> CSFFile) list \<Rightarrow>
   StoryId \<Rightarrow> IndexEntry \<Rightarrow> jsobj option \<Rightarrow> jsobj option" where
  "expected_view b prepare pa cached storyId entry old =
     (if entry_type entry = docs then old
      else (case prepare_pure prepare pa storyId (map_of cached (importPath entry)) of
              Inl e \<Rightarrow> old
            | Inr st \<Rightarrow>
                (if b then Some (extract_story st)
                 else (case get_member (get_prop st ''parameters'') ''docsOnly'' of
                         Inl e \<Rightarrow> old
                       | Inr d \<Rightarrow> if truthy d then old else Some (extract_story st)))))"

text \<open>
  A value is serializable when no function occurs in it: the properties of an object
  are looked at, to any depth.
\<close>

fun serializable :: "jsval \<Rightarrow> bool" where
  "serializable (JFun f) = False"
| "serializable (JObj props) = list_all (\<lambda>p. serializable (snd p)) props"
| "serializable v = True"

subsection \<open>What loading leaves alone\<close>

text \<open>Loading changes the cache of processed files and the loader's events, nothing else.\<close>

definition same_but_loading :: "StoryStore \<Rightarrow> StoryStore \<Rightarrow> bool" where
  "same_but_loading s s' \<longleftrightarrow>
     s' = s\<lparr>processCSFFileWithCache := processCSFFileWithCache s', loads := loads s'\<rparr>"

subsection \<open>Batches and their events\<close>

text \<open>A list cut into consecutive batches of \<open>n\<close> elements (the last one may be shorter).\<close>

function chunks :: "nat \<Rightarrow> 'a list \<Rightarrow> 'a list list" where
  "chunks n xs = (if n = 0 \<or> xs = [] then [] else take n xs # chunks n (drop n xs))"
  by pat_completeness auto
termination
  by (relation "measure (\<lambda>(n, xs). length xs)") auto

declare chunks.simps [simp del]

text \<open>
  The loader's events for one batch of import paths: every path is requested, then
  every request settles, in the order of the settling times.
\<close>

definition batch_events :: "ModuleImportFn \<Rightarrow> Path list \<Rightarrow> event list" where
  "batch_events f paths = map Called paths @ map Settled (sort_key (\<lambda>path. fst (f path)) paths)"

text \<open>The elements of a list in the order of their first occurrences.\<close>

fun first_occurrences :: "'a list \<Rightarrow> 'a list" where
  "first_occurrences [] = []"
| "first_occurrences (x # xs) = x # filter (\<lambda>y. y \<noteq> x) (first_occurrences xs)"

text \<open>The started load of an entry, as \<^verbatim>\<open>loadCSFFileByStoryId\<close> builds it.\<close>

definition load_of :: "ModuleImportFn \<Rightarrow> IndexEntry \<Rightarrow> Load" where
  "load_of f entry =
     \<lparr>load_path = importPath entry, load_title = title entry,
      settles_at = fst (f (importPath entry)), loaded = snd (f (importPath entry))\<rparr>"

text \<open>
  The list that \<^verbatim>\<open>loadAllCSFFiles\<close> builds from the entries of the index, one element
  for each entry, and the import paths in it.
\<close>

definition entry_items :: "(StoryId \<times> IndexEntry) list \<Rightarrow> (Path \<times> StoryId) list" where
  "entry_items es = map (\<lambda>(storyId, entry). (importPath entry, storyId)) es"

definition entry_paths :: "(StoryId \<times> IndexEntry) list \<Rightarrow> Path list" where
  "entry_paths es = map (\<lambda>(storyId, entry). importPath entry) es"

text \<open>\<^verbatim>\<open>loadInBatches\<close> on a list that is already cut into its batches.\<close>

fun run_batches ::
  "StoryStore \<Rightarrow> (Path \<times> StoryId) list list \<Rightarrow> ((Path \<times> CSFFile) list) outcome \<times> StoryStore" where
  "run_batches s [] = (Resolved [], s)"
| "run_batches s (b # bs) =
     (case loadBatch s b of
        (Threw e, s1) \<Rightarrow> (Threw e, s1)
      | (Rejected e, s1) \<Rightarrow> (Rejected e, s1)
      | (Resolved firstResults, s1) \<Rightarrow>
          (case run_batches s1 bs of
             (Resolved restResults, s2) \<Rightarrow> (Resolved (firstResults @ restResults), s2)
           | (Rejected e, s2) \<Rightarrow> (Rejected e, s2)
           | (Threw e, s2) \<Rightarrow> (Rejected e, s2)))"

text \<open>
  What a load gives when its file is processed without the cache, and the same for the
  file of an entry of the index, with its import path.
\<close>

definition load_result :: "(csf_key \<Rightarrow> error + CSFFile_content) \<Rightarrow> Load \<Rightarrow> error + CSFFile_content" where
  "load_result process l =
     (case loaded l of
        Inl e \<Rightarrow> Inl e
      | Inr moduleExports \<Rightarrow> process (moduleExports, load_path l, load_title l))"

definition entry_file ::
  "(csf_key \<Rightarrow> error + CSFFile_content) \<Rightarrow> ModuleImportFn \<Rightarrow> StoryId \<times> IndexEntry \<Rightarrow>
   Path \<times> (error + CSFFile_content)" where
  "entry_file process f = (\<lambda>(storyId, entry). (importPath entry, load_result process (load_of f entry)))"

text \<open>
  A batch of entries all of whose files load and are processed, and the batches that
  are started: those up to the first batch with a failure, that batch included.
\<close>

definition ok_batch ::
  "(csf_key \<Rightarrow> error + CSFFile_content) \<Rightarrow> ModuleImportFn \<Rightarrow> (StoryId \<times> IndexEntry) list \<Rightarrow> bool" where
  "ok_batch process f es \<longleftrightarrow> list_all (\<lambda>x. \<not> isl (snd (entry_file process f x))) es"

definition started_batches ::
  "(csf_key \<Rightarrow> error + CSFFile_content) \<Rightarrow> ModuleImportFn \<Rightarrow> (StoryId \<times> IndexEntry) list list \<Rightarrow>
   (StoryId \<times> IndexEntry) list list" where
  "started_batches process f ebs =
     takeWhile (ok_batch process f) ebs @ take 1 (dropWhile (ok_batch process f) ebs)"

text \<open>
  The content of a loaded file under its path, and the mapping from import paths to
  files that the \<^verbatim>\<open>reduce\<close> of \<^verbatim>\<open>loadAllCSFFiles\<close> builds when the file of every entry
  is taken as \<open>entry_file\<close> gives it: a path keeps the place of its first entry and
  holds the file of its last entry.
\<close>

definition file_content :: "Path \<times> CSFFile \<Rightarrow> Path \<times> (error + CSFFile_content)" where
  "file_content = (\<lambda>(path, csfFile). (path, Inr (snd csfFile)))"

definition loaded_files ::
  "(csf_key \<Rightarrow> error + CSFFile_content) \<Rightarrow> ModuleImportFn \<Rightarrow> StoryIndex \<Rightarrow>
   (Path \<times> (error + CSFFile_content)) list" where
  "loaded_files process f entries =
     fold (\<lambda>(path, r) acc. AList.update path r acc) (map (entry_file process f) entries) []"

text \<open>The keys of the cache of processed files that belong to files the loader returned.\<close>

definition loaded_keys :: "ModuleImportFn \<Rightarrow> (StoryId \<times> IndexEntry) list \<Rightarrow> csf_key set" where
  "loaded_keys f es =
     {(moduleExports, importPath entry, title entry) | moduleExports storyId entry.
        (storyId, entry) \<in> set es \<and> snd (f (importPath entry)) = Inr moduleExports}"

definition ex_processCSFFile :: "ModuleExports \<Rightarrow> Path \<Rightarrow> ComponentTitle \<Rightarrow> error + CSFFile_content" where
  "ex_processCSFFile moduleExports path t =
     (case map_of (snd moduleExports) ''default'' of
        None \<Rightarrow> Inl (Error ''MissingComponentAnnotations'')
      | Some d \<Rightarrow>
          Inr \<lparr>meta = [(''title'', JStr t), (''fileName'', JStr path)],
               stories = map (\<lambda>(name, v). (t @ ''--'' @ name, [(''name'', JStr name), (''moduleExport'', v)]))
                           (filter (\<lambda>(name, v). name \<noteq> ''default'') (snd moduleExports))\<rparr>)"

definition ex_prepareStory ::
  "(nat \<times> StoryId) \<times> jsobj \<Rightarrow> nat \<times> jsobj \<Rightarrow> nat \<times> jsobj \<Rightarrow> error + jsobj" where
  "ex_prepareStory sa ca pa =
     Inr [(''id'', JStr (snd (fst sa))), (''title'', get_prop (snd ca) ''title''),
          (''name'', get_prop (snd sa) ''name''),
          (''tags'', JArr [''story'', ''autodocs'']),
          (''parameters'', JObj [(''docsOnly'', JBool (get_prop (snd sa) ''name'' = JStr ''Docs''))]),
          (''initialArgs'', JObj [(''label'', JStr ''Button'')]),
          (''moduleExport'', get_prop (snd sa) ''moduleExport''),
          (''unboundStoryFn'', JFun ''unboundStoryFn'')]"

definition ex_button :: ModuleExports where
  "ex_button = (0, [(''default'', JObj [(''component'', JStr ''Button'')]),
                    (''Primary'', JFun ''Primary''), (''Docs'', JObj [])])"

definition ex_input :: ModuleExports where
  "ex_input = (1, [(''default'', JObj [(''component'', JStr ''Input'')]), (''Basic'', JObj [])])"

definition ex_intro :: ModuleExports where
  "ex_intro = (2, [(''default'', JFun ''MDXContent'')])"

definition ex_button_file :: CSFFile_content where
  "ex_button_file =
     \<lparr>meta = [(''title'', JStr ''Button''), (''fileName'', JStr ''./Button.stories.js'')],
      stories = [(''Button--Primary'', [(''name'', JStr ''Primary''), (''moduleExport'', JFun ''Primary'')]),
                 (''Button--Docs'', [(''name'', JStr ''Docs''), (''moduleExport'', JObj [])])]\<rparr>"

definition ex_renamed_file :: CSFFile_content where
  "ex_renamed_file =
     \<lparr>meta = [(''title'', JStr ''Renamed''), (''fileName'', JStr ''./Button.stories.js'')],
      stories = [(''Renamed--Primary'', [(''name'', JStr ''Primary''), (''moduleExport'', JFun ''Primary'')]),
                 (''Renamed--Docs'', [(''name'', JStr ''Docs''), (''moduleExport'', JObj [])])]\<rparr>"

definition ex_story_key :: story_key where
  "ex_story_key = (((0, ''Button--Primary''), [(''name'', JStr ''Primary''), (''moduleExport'', JFun ''Primary'')]),
                   (0, meta ex_button_file), (0, []))"

definition ex_story_key' :: story_key where
  "ex_story_key' = (((0, ''Button--Docs''), [(''name'', JStr ''Docs''), (''moduleExport'', JObj [])]),
                    (0, meta ex_button_file), (0, []))"

definition ex_primary :: jsobj where
  "ex_primary =
     [(''id'', JStr ''Button--Primary''), (''title'', JStr ''Button''), (''name'', JStr ''Primary''),
      (''tags'', JArr [''story'', ''autodocs'']),
      (''parameters'', JObj [(''docsOnly'', JBool False)]),
      (''initialArgs'', JObj [(''label'', JStr ''Button'')]),
      (''moduleExport'', JFun ''Primary''),
      (''unboundStoryFn'', JFun ''unboundStoryFn'')]"

definition ex_index :: StoryIndex where
  "ex_index =
     [(''Button--Primary'', \<lparr>entry_type = story, importPath = ''./Button.stories.js'', title = ''Button''\<rparr>),
      (''Button--Docs'', \<lparr>entry_type = story, importPath = ''./Button.stories.js'', title = ''Button''\<rparr>),
      (''Input--Basic'', \<lparr>entry_type = story, importPath = ''./Input.stories.js'', title = ''Input''\<rparr>),
      (''Intro--docs'', \<lparr>entry_type = docs, importPath = ''./Intro.mdx'', title = ''Intro''\<rparr>)]"

definition ex_importFn :: ModuleImportFn where
  "ex_importFn path =
     (if path = ''./Button.stories.js'' then (3, Inr ex_button)
      else if path = ''./Input.stories.js'' then (1, Inr ex_input)
      else if path = ''./Intro.mdx'' then (2, Inr ex_intro)
      else (0, Inl (Error ''Cannot find module'')))"

definition ex_failing_importFn :: ModuleImportFn where
  "ex_failing_importFn path =
     (if path = ''./Input.stories.js'' then (1, Inl (Error ''Loading chunk failed''))
      else ex_importFn path)"

text \<open>A new store whose project annotations have been set.\<close>

definition ex_store :: StoryStore where
  "ex_store = (StoryStore_new ex_processCSFFile ex_prepareStory)\<lparr>projectAnnotations := Some (0, [])\<rparr>"

text \<open>The same store after \<^verbatim>\<open>initialize\<close>, without and with the loading of all files.\<close>

definition ex_initialized :: StoryStore where
  "ex_initialized =
     (case initialize (Some ex_index) ex_importFn False ex_store of
        Some (r, s) \<Rightarrow> s
      | None \<Rightarrow> ex_store)"

definition ex_cached :: StoryStore where
  "ex_cached =
     (case initialize (Some ex_index) ex_importFn True ex_store of
        Some (r, s) \<Rightarrow> s
      | None \<Rightarrow> ex_store)"

definition ex_primary_view :: jsobj where
  "ex_primary_view =
     [(''args'', JObj [(''label'', JStr ''Button'')]),
      (''id'', JStr ''Button--Primary''), (''title'', JStr ''Button''), (''name'', JStr ''Primary''),
      (''tags'', JArr [''autodocs'', ''story'']),
      (''parameters'', JObj [(''docsOnly'', JBool False)]),
      (''initialArgs'', JObj [(''label'', JStr ''Button'')])]"

definition ex_docs :: jsobj where
  "ex_docs =
     [(''id'', JStr ''Button--Docs''), (''title'', JStr ''Button''), (''name'', JStr ''Docs''),
      (''tags'', JArr [''story'', ''autodocs'']),
      (''parameters'', JObj [(''docsOnly'', JBool True)]),
      (''initialArgs'', JObj [(''label'', JStr ''Button'')]),
      (''moduleExport'', JObj []),
      (''unboundStoryFn'', JFun ''unboundStoryFn'')]"

definition ex_docs_view :: jsobj where
  "ex_docs_view =
     [(''args'', JObj [(''label'', JStr ''Button'')]),
      (''id'', JStr ''Button--Docs''), (''title'', JStr ''Button''), (''name'', JStr ''Docs''),
      (''tags'', JArr [''autodocs'', ''story'']),
      (''parameters'', JObj [(''docsOnly'', JBool True)]),
      (''initialArgs'', JObj [(''label'', JStr ''Button'')])]"

definition ex_input_view :: jsobj where
  "ex_input_view =
     [(''args'', JObj [(''label'', JStr ''Button'')]),
      (''id'', JStr ''Input--Basic''), (''title'', JStr ''Input''), (''name'', JStr ''Basic''),
      (''tags'', JArr [''autodocs'', ''story'']),
      (''parameters'', JObj [(''docsOnly'', JBool False)]),
      (''initialArgs'', JObj [(''label'', JStr ''Button'')])]"

text \<open>A module that exports an array under the name \<open>Items\<close>, and a store that cached it.\<close>

definition ex_list :: ModuleExports where
  "ex_list = (3, [(''default'', JObj [(''component'', JStr ''List'')]), (''Items'', JArr [''b'', ''a''])])"

definition ex_list_index :: StoryIndex where
  "ex_list_index =
     [(''List--Items'', \<lparr>entry_type = story, importPath = ''./List.stories.js'', title = ''List''\<rparr>)]"

definition ex_list_importFn :: ModuleImportFn where
  "ex_list_importFn path = (0, Inr ex_list)"

text \<open>
  Its stories are prepared by a function that puts a function of the documentation
  into the parameters.
\<close>

definition ex_list_prepareStory ::
  "(nat \<times> StoryId) \<times> jsobj \<Rightarrow> nat \<times> jsobj \<Rightarrow> nat \<times> jsobj \<Rightarrow> error + jsobj" where
  "ex_list_prepareStory sa ca pa =
     Inr [(''id'', JStr (snd (fst sa))), (''title'', get_prop (snd ca) ''title''),
          (''name'', get_prop (snd sa) ''name''),
          (''tags'', JArr [''story'', ''autodocs'']),
          (''parameters'', JObj [(''docsOnly'', JBool False),
                                (''docs'', JObj [(''page'', JFun ''Page'')])]),
          (''initialArgs'', JObj [(''label'', JStr ''Button'')]),
          (''moduleExport'', get_prop (snd sa) ''moduleExport''),
          (''unboundStoryFn'', JFun ''unboundStoryFn'')]"

definition ex_list_store :: StoryStore where
  "ex_list_store =
     (StoryStore_new ex_processCSFFile ex_list_prepareStory)\<lparr>projectAnnotations := Some (0, [])\<rparr>"

definition ex_list_cached :: StoryStore where
  "ex_list_cached =
     (case initialize (Some ex_list_index) ex_list_importFn True ex_list_store of
        Some (r, s) \<Rightarrow> s
      | None \<Rightarrow> ex_list_store)"

definition ex_items :: jsobj where
  "ex_items =
     [(''id'', JStr ''List--Items''), (''title'', JStr ''List''), (''name'', JStr ''Items''),
      (''tags'', JArr [''story'', ''autodocs'']),
      (''parameters'', JObj [(''docsOnly'', JBool False),
                            (''docs'', JObj [(''page'', JFun ''Page'')])]),
      (''initialArgs'', JObj [(''label'', JStr ''Button'')]),
      (''moduleExport'', JArr [''b'', ''a'']),
      (''unboundStoryFn'', JFun ''unboundStoryFn'')]"

definition ex_items_view :: jsobj where
  "ex_items_view =
     [(''args'', JObj [(''label'', JStr ''Button'')]),
      (''id'', JStr ''List--Items''), (''title'', JStr ''List''), (''name'', JStr ''Items''),
      (''tags'', JArr [''autodocs'', ''story'']),
      (''parameters'', JObj [(''docsOnly'', JBool False),
                            (''docs'', JObj [(''page'', JFun ''Page'')])]),
      (''initialArgs'', JObj [(''label'', JStr ''Button'')])]"

definition ex_input_file :: CSFFile_content where
  "ex_input_file =
     \<lparr>meta = [(''title'', JStr ''Input''), (''fileName'', JStr ''./Input.stories.js'')],
      stories = [(''Input--Basic'', [(''name'', JStr ''Basic''), (''moduleExport'', JObj [])])]\<rparr>"

definition ex_intro_file :: CSFFile_content where
  "ex_intro_file =
     \<lparr>meta = [(''title'', JStr ''Intro''), (''fileName'', JStr ''./Intro.mdx'')], stories = []\<rparr>"

definition ex_cached_files :: "(Path \<times> CSFFile) list" where
  "ex_cached_files =
     [(''./Button.stories.js'', 2, ex_button_file), (''./Input.stories.js'', 0, ex_input_file),
      (''./Intro.mdx'', 1, ex_intro_file)]"

definition ex_list_file :: CSFFile_content where
  "ex_list_file =
     \<lparr>meta = [(''title'', JStr ''List''), (''fileName'', JStr ''./List.stories.js'')],
      stories = [(''List--Items'', [(''name'', JStr ''Items''), (''moduleExport'', JArr [''b'', ''a''])])]\<rparr>"


text \<open>The initialized store with a loader that fails for \<^verbatim>\<open>./Input.stories.js\<close>.\<close>

definition ex_failing :: StoryStore where
  "ex_failing = ex_initialized\<lparr>importFn := Some ex_failing_importFn\<rparr>"

section \<open>Properties of the memoization\<close>

lemma memo_call_limit [simp]: "limit (snd (memo_call m k)) = limit m"
  by (simp add: memo_call_def split: option.splits sum.splits)

lemma memo_call_fn [simp]: "fn (snd (memo_call m k)) = fn m"
  by (simp add: memo_call_def split: option.splits sum.splits)

lemma memo_calls_limit [simp]: "limit (memo_calls m ks) = limit m"
  by (induction ks arbitrary: m) auto

lemma memo_calls_fn [simp]: "fn (memo_calls m ks) = fn m"
  by (induction ks arbitrary: m) auto

lemma memo_calls_append: "memo_calls m (ks @ ks') = memo_calls (memo_calls m ks) ks'"
  by (induction ks arbitrary: m) auto

lemma distinct_fst_filter: "distinct (map fst xs) \<Longrightarrow> distinct (map fst (filter P xs))"
  by (induction xs) auto

lemma distinct_fst_take: "distinct (map fst xs) \<Longrightarrow> distinct (map fst (take n xs))"
  by (metis distinct_take take_map)

lemma memo_call_distinct:
  "distinct (map fst (lru m)) \<Longrightarrow> distinct (map fst (lru (snd (memo_call m k))))"
proof (cases "map_of (lru m) k")
  case None
  assume d: "distinct (map fst (lru m))"
  from None have "k \<notin> fst ` set (lru m)" by (simp add: map_of_eq_None_iff)
  with d have "distinct (map fst ((k, v) # lru m))" for v by simp
  then have "distinct (map fst (take n ((k, v) # lru m)))" for n v
    by (rule distinct_fst_take)
  with d None show ?thesis
    by (simp add: memo_call_def split: sum.splits)
next
  case (Some v)
  assume d: "distinct (map fst (lru m))"
  then have "distinct (map fst (filter (\<lambda>e. fst e \<noteq> k) (lru m)))"
    by (rule distinct_fst_filter)
  with Some show ?thesis by (auto simp: memo_call_def)
qed

lemma memo_calls_distinct:
  "distinct (map fst (lru m)) \<Longrightarrow> distinct (map fst (lru (memo_calls m ks)))"
  by (induction ks arbitrary: m) (auto intro: memo_call_distinct)

lemma newer_Cons: "newer ((a, v) # xs) k = (if a = k then {} else insert a (newer xs k))"
  by (auto simp: newer_def)

lemma newer_filter: "k' \<noteq> k \<Longrightarrow> newer (filter (\<lambda>e. fst e \<noteq> k') xs) k \<subseteq> newer xs k"
  by (induction xs) (auto simp: newer_def)

lemma map_of_filter_other: "k' \<noteq> k \<Longrightarrow> map_of (filter (\<lambda>e. fst e \<noteq> k') xs) k = map_of xs k"
  by (induction xs) auto

lemma card_newer:
  "distinct (map fst xs) \<Longrightarrow> card (newer xs k) = length (takeWhile (\<lambda>x. x \<noteq> k) (map fst xs))"
  unfolding newer_def
  by (metis distinct_card distinct_takeWhile)

lemma take_keeps:
  "length (takeWhile (\<lambda>x. x \<noteq> k) (map fst xs)) < n \<Longrightarrow>
   map_of (take n xs) k = map_of xs k \<and> newer (take n xs) k = newer xs k"
proof (induction xs arbitrary: n)
  case Nil
  then show ?case by (simp add: newer_def)
next
  case (Cons a xs)
  then obtain n' where n: "n = Suc n'" by (cases n) auto
  show ?case
  proof (cases "fst a = k")
    case True
    then show ?thesis using n by (simp add: newer_def)
  next
    case False
    with Cons.prems n have "length (takeWhile (\<lambda>x. x \<noteq> k) (map fst xs)) < n'" by simp
    from Cons.IH[OF this] False n show ?thesis by (simp add: newer_def)
  qed
qed

lemma retains_step:
  assumes r: "retains m k v S" and T: "insert k' S - {k} \<subseteq> T" "finite T" "card T < limit m"
  shows "retains (snd (memo_call m k')) k v (insert k' S - {k})"
proof -
  from r have d: "distinct (map fst (lru m))" and mk: "map_of (lru m) k = Some v"
    and nw: "newer (lru m) k \<subseteq> S" by (auto simp: retains_def)
  have d': "distinct (map fst (lru (snd (memo_call m k'))))"
    using d by (rule memo_call_distinct)
  have nk: "k \<notin> newer (lru m) k"
    unfolding newer_def by (auto dest: set_takeWhileD)
  show ?thesis
  proof (cases "k' = k")
    case True
    with mk d' show ?thesis by (simp add: retains_def memo_call_def newer_Cons)
  next
    case False
    show ?thesis
    proof (cases "map_of (lru m) k'")
      case (Some v')
      have "newer (filter (\<lambda>e. fst e \<noteq> k') (lru m)) k \<subseteq> newer (lru m) k"
        using False by (rule newer_filter)
      with Some False mk nw nk d' show ?thesis
        by (auto simp: retains_def memo_call_def newer_Cons map_of_filter_other)
    next
      case None
      show ?thesis
      proof (cases "fn m k'")
        case (Inl e)
        with None mk nw nk d show ?thesis
          by (auto simp: retains_def memo_call_def)
      next
        case (Inr c)
        let ?xs = "(k', (computed m, c)) # lru m"
        have dx: "distinct (map fst ?xs)" using d None by (simp add: map_of_eq_None_iff)
        have sub: "newer ?xs k \<subseteq> insert k' S - {k}"
          using False nw nk by (auto simp: newer_Cons)
        have "card (newer ?xs k) \<le> card T"
          using sub T(1,2) by (meson card_mono subset_trans)
        then have "length (takeWhile (\<lambda>x. x \<noteq> k) (map fst ?xs)) < limit m"
          using card_newer[OF dx, of k] T(3) by simp
        from take_keeps[OF this] have
          "map_of (take (limit m) ?xs) k = map_of ?xs k"
          "newer (take (limit m) ?xs) k = newer ?xs k" by auto
        with None Inr False mk sub d' show ?thesis
          by (simp add: retains_def memo_call_def)
      qed
    qed
  qed
qed

lemma retains_calls:
  assumes "retains m k v S" "S \<union> (set ks - {k}) \<subseteq> T" "finite T" "card T < limit m"
  shows "retains (memo_calls m ks) k v (S \<union> (set ks - {k}))"
  using assms
proof (induction ks arbitrary: m S)
  case Nil
  then show ?case by simp
next
  case (Cons a ks)
  have "retains (snd (memo_call m a)) k v (insert a S - {k})"
    using Cons.prems by (intro retains_step[where T=T]) auto
  moreover have "(insert a S - {k}) \<union> (set ks - {k}) \<subseteq> T" using Cons.prems by auto
  ultimately have "retains (memo_calls (snd (memo_call m a)) ks) k v ((insert a S - {k}) \<union> (set ks - {k}))"
    using Cons.prems by (intro Cons.IH) auto
  then show ?case by (auto simp: retains_def)
qed

lemma retains_hit:
  "retains m k v S \<Longrightarrow> fst (memo_call m k) = Inr v \<and> computed (snd (memo_call m k)) = computed m"
  by (simp add: retains_def memo_call_def)

lemma retains_after_call:
  assumes "fst (memo_call m k) = Inr v" "distinct (map fst (lru m))" "0 < limit m"
  shows "retains (snd (memo_call m k)) k v {}"
proof -
  have d': "distinct (map fst (lru (snd (memo_call m k))))"
    using assms(2) by (rule memo_call_distinct)
  obtain n where n: "limit m = Suc n" using assms(3) by (cases "limit m") auto
  show ?thesis using assms(1) d' n
    by (auto simp: retains_def memo_call_def newer_Cons split: option.splits sum.splits)
qed

lemma memo_repeat_hit:
  assumes "fst (memo_call m k) = Inr v" "distinct (map fst (lru m))"
    and "card (set ks - {k}) < limit m"
  shows "fst (memo_call (memo_calls (snd (memo_call m k)) ks) k) = Inr v \<and>
         computed (snd (memo_call (memo_calls (snd (memo_call m k)) ks) k)) =
         computed (memo_calls (snd (memo_call m k)) ks)"
proof -
  have "0 < limit m" using assms(3) by auto
  from retains_after_call[OF assms(1,2) this]
  have "retains (memo_calls (snd (memo_call m k)) ks) k v ({} \<union> (set ks - {k}))"
    using assms(3) by (intro retains_calls[where T="set ks - {k}"]) auto
  then show ?thesis by (rule retains_hit)
qed


lemma distinct_map_filter': "distinct (map f xs) \<Longrightarrow> distinct (map f (filter P xs))"
  by (induction xs) auto

lemma distinct_map_take': "distinct (map f xs) \<Longrightarrow> distinct (map f (take n xs))"
  by (metis distinct_take take_map)

lemma memo_wf_memoize: "memo_wf (memoize n f)"
  by (simp add: memo_wf_def memoize_def)

lemma distinct_ids_same:
  assumes "distinct (map (\<lambda>e. fst (snd e)) xs)" "(k, r, c) \<in> set xs" "(k', r, c') \<in> set xs"
  shows "k' = k \<and> c' = c"
proof -
  have "inj_on (\<lambda>e. fst (snd e)) (set xs)" using assms(1) by (simp add: distinct_map)
  from inj_onD[OF this _ assms(2,3)] show ?thesis by simp
qed

lemma memo_call_hit:
  "map_of (lru m) k = Some v \<Longrightarrow>
   memo_call m k = (Inr v, m\<lparr>lru := (k, v) # filter (\<lambda>e. fst e \<noteq> k) (lru m)\<rparr>)"
  by (simp add: memo_call_def)

lemma memo_call_fail:
  "map_of (lru m) k = None \<Longrightarrow> fn m k = Inl e \<Longrightarrow>
   memo_call m k = (Inl e, m\<lparr>computed := Suc (computed m)\<rparr>)"
  by (simp add: memo_call_def)

lemma memo_call_miss:
  "map_of (lru m) k = None \<Longrightarrow> fn m k = Inr c \<Longrightarrow>
   memo_call m k =
     (Inr (computed m, c),
      m\<lparr>lru := take (limit m) ((k, (computed m, c)) # lru m), computed := Suc (computed m)\<rparr>)"
  by (simp add: memo_call_def)

lemma memo_wf_call: assumes "memo_wf m" shows "memo_wf (snd (memo_call m k))"
proof -
  from assms have d: "distinct (map fst (lru m))"
    and r: "distinct (map (\<lambda>e. fst (snd e)) (lru m))"
    and b: "\<And>k r c. (k, r, c) \<in> set (lru m) \<Longrightarrow> r < computed m" by (auto simp: memo_wf_def)
  have d': "distinct (map fst (lru (snd (memo_call m k))))" using d by (rule memo_call_distinct)
  show ?thesis
  proof (cases "map_of (lru m) k")
    case (Some v)
    then have in_lru: "(k, fst v, snd v) \<in> set (lru m)" by (simp add: map_of_SomeD)
    have "distinct (map (\<lambda>e. fst (snd e)) (filter (\<lambda>e. fst e \<noteq> k) (lru m)))"
      using r by (rule distinct_map_filter')
    moreover have "fst v \<notin> (\<lambda>e. fst (snd e)) ` set (filter (\<lambda>e. fst e \<noteq> k) (lru m))"
    proof
      assume "fst v \<in> (\<lambda>e. fst (snd e)) ` set (filter (\<lambda>e. fst e \<noteq> k) (lru m))"
      then obtain k' c' where e: "(k', fst v, c') \<in> set (lru m)" "k' \<noteq> k" by force
      from distinct_ids_same[OF r in_lru e(1)] e(2) show False by simp
    qed
    moreover have "r' < computed m" if "(k', r', c') \<in> set (lru m)" for k' r' c'
      using that by (rule b)
    moreover have "fst v < computed m" using in_lru by (rule b)
    ultimately show ?thesis using d'
      unfolding memo_call_hit[OF Some] memo_wf_def by (cases v) auto
  next
    case None
    show ?thesis
    proof (cases "fn m k")
      case (Inl e)
      have "r' < Suc (computed m)" if "(k', r', c') \<in> set (lru m)" for k' r' c'
        using b[OF that] by simp
      with d r show ?thesis
        unfolding memo_call_fail[OF None Inl] memo_wf_def by auto
    next
      case (Inr c)
      let ?xs = "(k, (computed m, c)) # lru m"
      have "computed m \<notin> (\<lambda>e. fst (snd e)) ` set (lru m)"
      proof
        assume "computed m \<in> (\<lambda>e. fst (snd e)) ` set (lru m)"
        then obtain k' c' where "(k', computed m, c') \<in> set (lru m)" by force
        from b[OF this] show False by simp
      qed
      then have "distinct (map (\<lambda>e. fst (snd e)) ?xs)" using r by simp
      then have "distinct (map (\<lambda>e. fst (snd e)) (take (limit m) ?xs))"
        by (rule distinct_map_take')
      moreover have "r' < Suc (computed m)" if "(k', r', c') \<in> set (take (limit m) ?xs)" for k' r' c'
      proof -
        from that have "(k', r', c') \<in> set ?xs" by (rule in_set_takeD)
        then show ?thesis using b[of k' r' c'] by auto
      qed
      ultimately show ?thesis using d'
        unfolding memo_call_miss[OF None Inr] memo_wf_def by auto
    qed
  qed
qed

lemma memo_wf_calls: "memo_wf m \<Longrightarrow> memo_wf (memo_calls m ks)"
  by (induction ks arbitrary: m) (auto intro: memo_wf_call)

lemma owned_call: assumes "owned m k r" shows "owned (snd (memo_call m k')) k r"
proof -
  from assms have lt: "r < computed m"
    and own: "\<And>k' c. (k', r, c) \<in> set (lru m) \<Longrightarrow> k' = k" by (auto simp: owned_def)
  show ?thesis
  proof (cases "map_of (lru m) k'")
    case (Some v)
    then have "(k', fst v, snd v) \<in> set (lru m)" by (simp add: map_of_SomeD)
    then have "fst v = r \<Longrightarrow> k' = k" using own by blast
    with lt own show ?thesis
      unfolding memo_call_hit[OF Some] owned_def by (cases v) auto
  next
    case None
    show ?thesis
    proof (cases "fn m k'")
      case (Inl e)
      with lt own show ?thesis unfolding memo_call_fail[OF None Inl] owned_def by auto
    next
      case (Inr c)
      have "k'' = k" if "(k'', r, c'') \<in> set (take (limit m) ((k', (computed m, c)) # lru m))"
        for k'' c''
      proof -
        from that have "(k'', r, c'') \<in> set ((k', (computed m, c)) # lru m)" by (rule in_set_takeD)
        with lt own show ?thesis by auto
      qed
      with lt show ?thesis unfolding memo_call_miss[OF None Inr] owned_def by auto
    qed
  qed
qed

lemma owned_calls: "owned m k r \<Longrightarrow> owned (memo_calls m ks) k r"
  by (induction ks arbitrary: m) (auto intro: owned_call)

lemma owned_first:
  assumes "memo_wf m" "fst (memo_call m k) = Inr v"
  shows "owned (snd (memo_call m k)) k (fst v)"
proof -
  from assms(1) have r: "distinct (map (\<lambda>e. fst (snd e)) (lru m))"
    and b: "\<And>k r c. (k, r, c) \<in> set (lru m) \<Longrightarrow> r < computed m" by (auto simp: memo_wf_def)
  show ?thesis
  proof (cases "map_of (lru m) k")
    case (Some w)
    with assms(2) have [simp]: "w = v" by (simp add: memo_call_def)
    from Some have in_lru: "(k, fst v, snd v) \<in> set (lru m)" by (simp add: map_of_SomeD)
    have "owned m k (fst v)"
      unfolding owned_def using b[OF in_lru] distinct_ids_same[OF r in_lru] by blast
    then show ?thesis by (rule owned_call)
  next
    case None
    show ?thesis
    proof (cases "fn m k")
      case (Inl e)
      with None assms(2) show ?thesis by (simp add: memo_call_def)
    next
      case (Inr c)
      with None assms(2) have v: "v = (computed m, c)" by (simp add: memo_call_def)
      have "k'' = k" if "(k'', computed m, c'') \<in> set (take (limit m) ((k, (computed m, c)) # lru m))"
        for k'' c''
      proof -
        from that have "(k'', computed m, c'') \<in> set ((k, (computed m, c)) # lru m)"
          by (rule in_set_takeD)
        then show ?thesis using b[of k'' "computed m" c''] by auto
      qed
      then show ?thesis unfolding memo_call_miss[OF None Inr] owned_def v by auto
    qed
  qed
qed

lemma owned_other:
  assumes "owned m k r" "k' \<noteq> k" "fst (memo_call m k') = Inr v'"
  shows "fst v' \<noteq> r"
proof (cases "map_of (lru m) k'")
  case (Some w)
  with assms(3) have [simp]: "w = v'" by (simp add: memo_call_def)
  from Some have "(k', fst v', snd v') \<in> set (lru m)" by (simp add: map_of_SomeD)
  with assms(1,2) show ?thesis unfolding owned_def by blast
next
  case None
  with assms(1,3) show ?thesis
    by (auto simp: owned_def memo_call_def split: sum.splits)
qed

lemma memo_distinct_results:
  assumes "memo_wf m" "fst (memo_call m k) = Inr v" "k' \<noteq> k"
    and "fst (memo_call (memo_calls (snd (memo_call m k)) ks) k') = Inr v'"
  shows "fst v' \<noteq> fst v"
  using owned_other[OF owned_calls[OF owned_first[OF assms(1,2)]] assms(3,4)] .

lemma memo_wf_distinct: "memo_wf m \<Longrightarrow> distinct (map fst (lru m))"
  by (simp add: memo_wf_def)

section \<open>The two caches of the store\<close>

text \<open>
  Claim C1. The store's constructor wraps \<^verbatim>\<open>processCSFFile\<close> in a cache of 1000
  results and \<^verbatim>\<open>prepareStory\<close> in a cache of 10000 results. Whatever calls were made
  before: when a call of \<^verbatim>\<open>processCSFFileWithCache\<close> with the triple (module exports,
  import path, title) returns an object and fewer than 1000 distinct other triples are
  requested after it, the next call with that triple returns the identical object and
  computes nothing; the same holds for \<^verbatim>\<open>prepareStoryWithCache\<close> and its triple of
  annotations with the bound 10000; and a call that differs only in the title returns an
  object of another identity.
\<close>

theorem cache_identity:
  "(fst (memo_call (memo_calls (processCSFFileWithCache (StoryStore_new pc ps)) earlier)
           (moduleExports, path, t)) = Inr csfFile \<and>
    card (set calls - {(moduleExports, path, t)}) < 1000 \<longrightarrow>
      (let c = memo_calls (snd (memo_call (memo_calls (processCSFFileWithCache (StoryStore_new pc ps)) earlier)
                 (moduleExports, path, t))) calls
       in fst (memo_call c (moduleExports, path, t)) = Inr csfFile \<and>
          computed (snd (memo_call c (moduleExports, path, t))) = computed c)) \<and>
   (fst (memo_call (memo_calls (prepareStoryWithCache (StoryStore_new pc ps)) earlier') key) = Inr prepared \<and>
    card (set calls' - {key}) < 10000 \<longrightarrow>
      (let p = memo_calls (snd (memo_call (memo_calls (prepareStoryWithCache (StoryStore_new pc ps)) earlier') key))
                 calls'
       in fst (memo_call p key) = Inr prepared \<and> computed (snd (memo_call p key)) = computed p)) \<and>
   (fst (memo_call (memo_calls (processCSFFileWithCache (StoryStore_new pc ps)) earlier)
           (moduleExports, path, t)) = Inr csfFile \<and> t' \<noteq> t \<and>
    fst (memo_call
           (memo_calls (snd (memo_call (memo_calls (processCSFFileWithCache (StoryStore_new pc ps)) earlier)
              (moduleExports, path, t))) later)
           (moduleExports, path, t')) = Inr csfFile' \<longrightarrow>
      fst csfFile' \<noteq> fst csfFile)"
proof -
  let ?S = "StoryStore_new pc ps"
  have wf1: "memo_wf (memo_calls (processCSFFileWithCache ?S) earlier)"
    by (simp add: StoryStore_new_def memo_wf_memoize memo_wf_calls)
  have wf2: "memo_wf (memo_calls (prepareStoryWithCache ?S) earlier')"
    by (simp add: StoryStore_new_def memo_wf_memoize memo_wf_calls)
  have l1: "limit (memo_calls (processCSFFileWithCache ?S) earlier) = 1000"
    by (simp add: StoryStore_new_def memoize_def CSF_CACHE_SIZE_def)
  have l2: "limit (memo_calls (prepareStoryWithCache ?S) earlier') = 10000"
    by (simp add: StoryStore_new_def memoize_def STORY_CACHE_SIZE_def)
  show ?thesis
    using memo_repeat_hit[OF _ memo_wf_distinct[OF wf1], of "(moduleExports, path, t)" "csfFile" "calls"]
      memo_repeat_hit[OF _ memo_wf_distinct[OF wf2], of "key" "prepared" "calls'"]
      memo_distinct_results[OF wf1, of "(moduleExports, path, t)" "csfFile" "(moduleExports, path, t')"
        "later" "csfFile'"]
    unfolding l1 l2 Let_def by blast
qed

theorem cache_identity_witness:
  "fst (memo_call (memo_calls (processCSFFileWithCache (StoryStore_new ex_processCSFFile ex_prepareStory)) [])
          (ex_button, ''./Button.stories.js'', ''Button''))
     = Inr (0, ex_button_file) \<and>
   card (set [(ex_input, ''./Input.stories.js'', ''Input'')] - {(ex_button, ''./Button.stories.js'', ''Button'')})
     < 1000 \<and>
   fst (memo_call
          (memo_calls
             (snd (memo_call (memo_calls (processCSFFileWithCache (StoryStore_new ex_processCSFFile ex_prepareStory)) [])
                     (ex_button, ''./Button.stories.js'', ''Button'')))
             [(ex_input, ''./Input.stories.js'', ''Input'')])
          (ex_button, ''./Button.stories.js'', ''Button''))
     = Inr (0, ex_button_file) \<and>
   fst (memo_call (memo_calls (prepareStoryWithCache (StoryStore_new ex_processCSFFile ex_prepareStory)) [])
          ex_story_key) = Inr (0, ex_primary) \<and>
   card (set [ex_story_key'] - {ex_story_key}) < 10000 \<and>
   fst (memo_call
          (memo_calls
             (snd (memo_call (memo_calls (prepareStoryWithCache (StoryStore_new ex_processCSFFile ex_prepareStory)) [])
                     ex_story_key))
             [ex_story_key'])
          ex_story_key) = Inr (0, ex_primary) \<and>
   ''Renamed'' \<noteq> ''Button'' \<and>
   fst (memo_call
          (memo_calls
             (snd (memo_call (memo_calls (processCSFFileWithCache (StoryStore_new ex_processCSFFile ex_prepareStory)) [])
                     (ex_button, ''./Button.stories.js'', ''Button'')))
             [])
          (ex_button, ''./Button.stories.js'', ''Renamed'')) = Inr (1, ex_renamed_file) \<and>
   fst (1, ex_renamed_file) \<noteq> fst (0 :: nat, ex_button_file)"
proof -
  let ?S = "StoryStore_new ex_processCSFFile ex_prepareStory"
  have first: "fst (memo_call (memo_calls (processCSFFileWithCache ?S) [])
          (ex_button, ''./Button.stories.js'', ''Button'')) = Inr (0, ex_button_file)"
    by (simp add: StoryStore_new_def memoize_def memo_call_def ex_processCSFFile_def ex_button_def
          ex_button_file_def)
  have few: "card (set [(ex_input, ''./Input.stories.js'', ''Input'')]
                 - {(ex_button, ''./Button.stories.js'', ''Button'')}) < 1000"
    by (simp add: ex_input_def ex_button_def)
  have first': "fst (memo_call (memo_calls (prepareStoryWithCache ?S) []) ex_story_key) = Inr (0, ex_primary)"
    by (simp add: StoryStore_new_def memoize_def memo_call_def ex_prepareStory_def ex_story_key_def
          ex_primary_def ex_button_file_def get_prop_def)
  have few': "card (set [ex_story_key'] - {ex_story_key}) < 10000"
    by (simp add: ex_story_key_def ex_story_key'_def)
  have other: "fst (memo_call
          (memo_calls (snd (memo_call (memo_calls (processCSFFileWithCache ?S) [])
                              (ex_button, ''./Button.stories.js'', ''Button''))) [])
          (ex_button, ''./Button.stories.js'', ''Renamed'')) = Inr (1, ex_renamed_file)"
    by (simp add: StoryStore_new_def memoize_def memo_call_def ex_processCSFFile_def ex_button_def
          ex_renamed_file_def CSF_CACHE_SIZE_def)
  have ne: "''Renamed'' \<noteq> ''Button''" by simp
  from cache_identity[where pc = ex_processCSFFile and ps = ex_prepareStory and earlier = "[]"
      and moduleExports = ex_button and path = "''./Button.stories.js''" and t = "''Button''"
      and csfFile = "(0, ex_button_file)"
      and calls = "[(ex_input, ''./Input.stories.js'', ''Input'')]"
      and earlier' = "[]" and key = ex_story_key and prepared = "(0, ex_primary)"
      and calls' = "[ex_story_key']" and t' = "''Renamed''" and later = "[]"
      and csfFile' = "(1, ex_renamed_file)"]
    first few first' few' other ne
  show ?thesis unfolding Let_def by blast
qed

section \<open>Evaluation of the model\<close>

lemmas ex_defs = ex_store_def ex_index_def ex_importFn_def ex_failing_importFn_def
  ex_processCSFFile_def ex_prepareStory_def ex_button_def ex_input_def ex_intro_def
  ex_initialized_def ex_cached_def ex_button_file_def ex_primary_def ex_primary_view_def ex_docs_def
  ex_docs_view_def ex_input_view_def ex_list_def ex_list_index_def ex_list_importFn_def
  ex_list_cached_def ex_list_store_def ex_list_prepareStory_def ex_items_def ex_items_view_def ex_input_file_def ex_intro_file_def
  ex_cached_files_def ex_list_file_def

lemmas store_defs = StoryStore_new_def memoize_def CSF_CACHE_SIZE_def STORY_CACHE_SIZE_def
  EXTRACT_BATCH_SIZE_def StoryIndexStore_new_def StoryIndexStore_storyIdToEntry_def

lemmas load_defs = loadAllCSFFiles_def loadInBatches_Cons loadBatch_def start_load_def
  settle_load_def completion_order_def promise_all_def memo_call_def loadCSFFileByStoryId_def

lemmas gate_defs = initialize_def resolveInitializationPromise_def run_gated_def
  cacheAllCSFFiles_body_def gate_def replace_inputs_def

lemmas story_defs = storyFromCSFFile_def setInitial_def story_id_def get_prop_def get_member_def
  extractStories_def extract_story_def fromId_def

section \<open>Extraction and the story cache\<close>

lemma memo_consistent_memoize: "memo_consistent (memoize n f)"
  by (simp add: memo_consistent_def memoize_def)

lemma memo_consistent_call:
  assumes "memo_consistent m"
  shows "memo_consistent (snd (memo_call m k)) \<and> map_sum id snd (fst (memo_call m k)) = fn m k"
proof -
  from assms have c: "\<And>k r c. (k, r, c) \<in> set (lru m) \<Longrightarrow> fn m k = Inr c"
    by (auto simp: memo_consistent_def)
  show ?thesis
  proof (cases "map_of (lru m) k")
    case (Some v)
    then have "(k, fst v, snd v) \<in> set (lru m)" by (simp add: map_of_SomeD)
    from c[OF this] have "fn m k = Inr (snd v)" .
    moreover have "fn m k' = Inr c'" if "(k', r', c') \<in> set (filter (\<lambda>e. fst e \<noteq> k) (lru m))" for k' r' c'
      using that c by auto
    ultimately show ?thesis
      unfolding memo_call_hit[OF Some] memo_consistent_def by (cases v) auto
  next
    case None
    show ?thesis
    proof (cases "fn m k")
      case (Inl e)
      with c show ?thesis unfolding memo_call_fail[OF None Inl] memo_consistent_def by auto
    next
      case (Inr c0)
      have "fn m k' = Inr c'" if "(k', r', c') \<in> set (take (limit m) ((k, (computed m, c0)) # lru m))"
        for k' r' c'
      proof -
        from that have "(k', r', c') \<in> set ((k, (computed m, c0)) # lru m)" by (rule in_set_takeD)
        with Inr c show ?thesis by auto
      qed
      with Inr show ?thesis unfolding memo_call_miss[OF None Inr] memo_consistent_def by auto
    qed
  qed
qed

lemma storyFromCSFFile_pure:
  assumes "memo_consistent (prepareStoryWithCache s)"
  shows "map_sum id snd (fst (storyFromCSFFile s storyId csfFile)) =
           prepare_pure (fn (prepareStoryWithCache s)) (projectAnnotations s) storyId csfFile"
    and "memo_consistent (prepareStoryWithCache (snd (storyFromCSFFile s storyId csfFile)))"
    and "fn (prepareStoryWithCache (snd (storyFromCSFFile s storyId csfFile))) = fn (prepareStoryWithCache s)"
    and "projectAnnotations (snd (storyFromCSFFile s storyId csfFile)) = projectAnnotations s"
proof -
  have "map_sum id snd (fst (storyFromCSFFile s storyId csfFile)) =
           prepare_pure (fn (prepareStoryWithCache s)) (projectAnnotations s) storyId csfFile \<and>
        memo_consistent (prepareStoryWithCache (snd (storyFromCSFFile s storyId csfFile))) \<and>
        fn (prepareStoryWithCache (snd (storyFromCSFFile s storyId csfFile))) = fn (prepareStoryWithCache s) \<and>
        projectAnnotations (snd (storyFromCSFFile s storyId csfFile)) = projectAnnotations s"
  proof (cases "projectAnnotations s")
    case None
    with assms show ?thesis by (simp add: storyFromCSFFile_def prepare_pure_def)
  next
    case pa: (Some pa)
    show ?thesis
    proof (cases csfFile)
      case None
      with pa assms show ?thesis by (simp add: storyFromCSFFile_def prepare_pure_def)
    next
      case (Some rf)
      obtain r content where rf: "rf = (r, content)" by (cases rf)
      show ?thesis
      proof (cases "map_of (stories content) storyId")
        case None
        with pa Some rf assms show ?thesis by (simp add: storyFromCSFFile_def prepare_pure_def)
      next
        case sa: (Some sa)
        let ?k = "(((r, storyId), sa), (r, meta content), pa)"
        from memo_consistent_call[OF assms, of ?k]
        have c: "memo_consistent (snd (memo_call (prepareStoryWithCache s) ?k))"
          and v: "map_sum id snd (fst (memo_call (prepareStoryWithCache s) ?k)) = fn (prepareStoryWithCache s) ?k"
          by auto
        show ?thesis
        proof (cases "fst (memo_call (prepareStoryWithCache s) ?k)")
          case (Inl e)
          with pa Some rf sa c v show ?thesis
            by (simp add: storyFromCSFFile_def prepare_pure_def Let_def)
        next
          case (Inr st)
          with pa Some rf sa c v show ?thesis
            by (simp add: storyFromCSFFile_def prepare_pure_def Let_def)
        qed
      qed
    qed
  qed
  then show "map_sum id snd (fst (storyFromCSFFile s storyId csfFile)) =
           prepare_pure (fn (prepareStoryWithCache s)) (projectAnnotations s) storyId csfFile"
    and "memo_consistent (prepareStoryWithCache (snd (storyFromCSFFile s storyId csfFile)))"
    and "fn (prepareStoryWithCache (snd (storyFromCSFFile s storyId csfFile))) = fn (prepareStoryWithCache s)"
    and "projectAnnotations (snd (storyFromCSFFile s storyId csfFile)) = projectAnnotations s"
    by simp_all
qed

lemma extract_reduce_pure:
  "memo_consistent (prepareStoryWithCache s) \<Longrightarrow>
   fst (extract_reduce b cached entries acc s) =
     extract_pure b (fn (prepareStoryWithCache s)) (projectAnnotations s) cached entries acc"
proof (induction entries arbitrary: acc s)
  case Nil
  then show ?case by simp
next
  case (Cons x entries)
  obtain storyId entry where x: "x = (storyId, entry)" by (cases x)
  let ?r = "storyFromCSFFile s storyId (map_of cached (importPath entry))"
  note p = storyFromCSFFile_pure[OF Cons.prems, of storyId "map_of cached (importPath entry)"]
  show ?case
  proof (cases "entry_type entry = docs")
    case True
    with Cons x show ?thesis by simp
  next
    case False
    show ?thesis
    proof (cases "fst ?r")
      case (Inl e)
      with p(1) have "prepare_pure (fn (prepareStoryWithCache s)) (projectAnnotations s) storyId
          (map_of cached (importPath entry)) = Inl e" by simp
      with Inl False x show ?thesis by (simp add: split_beta)
    next
      case (Inr st)
      with p(1) have pp: "prepare_pure (fn (prepareStoryWithCache s)) (projectAnnotations s) storyId
          (map_of cached (importPath entry)) = Inr (snd st)" by simp
      have ih: "fst (extract_reduce b cached entries acc' (snd ?r)) =
          extract_pure b (fn (prepareStoryWithCache s)) (projectAnnotations s) cached entries acc'" for acc'
        using Cons.IH[OF p(2), of acc'] p(3,4) by simp
      show ?thesis
      proof (cases b)
        case True
        with Inr pp False x ih[of "AList.update storyId (extract_story (snd st)) acc"] show ?thesis
          by (simp add: split_beta)
      next
        case nb: False
        show ?thesis
        proof (cases "get_member (get_prop (snd st) ''parameters'') ''docsOnly''")
          case (Inl e)
          with nb Inr pp False x show ?thesis by (simp add: split_beta)
        next
          case d: (Inr d)
          with nb Inr pp False x ih[of "AList.update storyId (extract_story (snd st)) acc"] ih[of acc]
          show ?thesis by (simp add: split_beta)
        qed
      qed
    qed
  qed
qed

lemma extractStories_pure:
  assumes "memo_consistent (prepareStoryWithCache s)" "storyIndex s = Some entries" "cachedCSFFiles s = Some cached"
  shows "fst (extractStories b s) =
     extract_pure b (fn (prepareStoryWithCache s)) (projectAnnotations s) cached entries []"
  using assms extract_reduce_pure[OF assms(1)] by (simp add: extractStories_def)


lemma extract_step_map_of:
  "map_of ((\<lambda>(key, v) storyAcc.
             if key = ''moduleExport'' then storyAcc
             else (case v of
                     JFun f \<Rightarrow> storyAcc
                   | JArr xs \<Rightarrow> AList.update key (JArr (sort xs)) storyAcc
                   | _ \<Rightarrow> AList.update key v storyAcc)) (key, v) acc) k =
   (if k = key then extract_field key v (map_of acc k) else map_of acc k)"
  by (cases v) (auto simp: extract_field_def update_conv')

lemma extract_fold_map_of:
  "distinct (map fst st) \<Longrightarrow>
   map_of (fold (\<lambda>(key, v) storyAcc.
             if key = ''moduleExport'' then storyAcc
             else (case v of
                     JFun f \<Rightarrow> storyAcc
                   | JArr xs \<Rightarrow> AList.update key (JArr (sort xs)) storyAcc
                   | _ \<Rightarrow> AList.update key v storyAcc)) st acc) k =
   (case map_of st k of None \<Rightarrow> map_of acc k | Some v \<Rightarrow> extract_field k v (map_of acc k))"
proof (induction st arbitrary: acc)
  case Nil
  then show ?case by simp
next
  case (Cons x st)
  obtain key v where x: "x = (key, v)" by (cases x)
  from Cons.prems x have d: "distinct (map fst st)" and nk: "key \<notin> fst ` set st" by auto
  from nk have none: "map_of st key = None" by (simp add: map_of_eq_None_iff)
  show ?case
    unfolding x fold_simps Cons.IH[OF d] extract_step_map_of
    using none by (auto split: option.splits)
qed

lemma extract_story_map_of:
  assumes "story_object st"
  shows "map_of (extract_story st) k =
     (if k = ''args'' then Some (get_prop st ''initialArgs'')
      else if k = ''moduleExport'' then None
      else (case map_of st k of
              None \<Rightarrow> None
            | Some (JFun f) \<Rightarrow> None
            | Some (JArr xs) \<Rightarrow> Some (JArr (sort xs))
            | Some v \<Rightarrow> Some v))"
proof -
  from assms have d: "distinct (map fst st)" and na: "map_of st ''args'' = None"
    by (auto simp: story_object_def map_of_eq_None_iff)
  show ?thesis
    unfolding extract_story_def extract_fold_map_of[OF d]
    using na by (auto simp: extract_field_def split: option.splits jsval.splits)
qed

lemma extract_pure_map_of:
  "extract_pure b prepare pa cached entries acc = Inr res \<Longrightarrow> distinct (map fst entries) \<Longrightarrow>
   map_of res storyId =
     (case map_of entries storyId of
        None \<Rightarrow> map_of acc storyId
      | Some entry \<Rightarrow> expected_view b prepare pa cached storyId entry (map_of acc storyId))"
proof (induction entries arbitrary: acc)
  case Nil
  then show ?case by simp
next
  case (Cons x entries)
  obtain i entry where x: "x = (i, entry)" by (cases x)
  from Cons.prems x have d: "distinct (map fst entries)" and ni: "i \<notin> fst ` set entries" by auto
  from ni have none: "map_of entries i = None" by (simp add: map_of_eq_None_iff)
  from Cons.prems(1) x obtain acc' where
    rest: "extract_pure b prepare pa cached entries acc' = Inr res"
    and acc': "map_of acc' = (map_of acc)(i := expected_view b prepare pa cached i entry (map_of acc i))"
    by (auto simp: expected_view_def update_conv' fun_upd_idem_iff
          split: if_splits sum.splits)
  from Cons.IH[OF rest d] none acc' x show ?case
    by (auto split: option.splits)
qed

lemma prepared_by_storyFromCSFFile:
  assumes "memo_consistent (prepareStoryWithCache s)"
  shows "(\<exists>r. fst (storyFromCSFFile s storyId csfFile) = Inr (r, st)) \<longleftrightarrow>
         prepare_pure (fn (prepareStoryWithCache s)) (projectAnnotations s) storyId csfFile = Inr st"
  using storyFromCSFFile_pure(1)[OF assms, of storyId csfFile]
  by (cases "fst (storyFromCSFFile s storyId csfFile)") auto

lemma storyFromCSFFile_args:
  "\<exists>a'. storyFromCSFFile (s\<lparr>args := a\<rparr>) storyId csfFile =
          (fst (storyFromCSFFile s storyId csfFile), snd (storyFromCSFFile s storyId csfFile)\<lparr>args := a'\<rparr>)"
proof -
  have "storyFromCSFFile (s\<lparr>args := a\<rparr>) storyId csfFile =
          (fst (storyFromCSFFile s storyId csfFile),
           snd (storyFromCSFFile s storyId csfFile)
             \<lparr>args := args (snd (storyFromCSFFile (s\<lparr>args := a\<rparr>) storyId csfFile))\<rparr>)"
    by (simp add: storyFromCSFFile_def Let_def split: option.splits sum.splits prod.splits)
  then show ?thesis by blast
qed

lemma extract_reduce_args:
  "\<exists>a'. extract_reduce b cached entries acc (s\<lparr>args := a\<rparr>) =
          (fst (extract_reduce b cached entries acc s), snd (extract_reduce b cached entries acc s)\<lparr>args := a'\<rparr>)"
proof (induction entries arbitrary: acc s a)
  case Nil
  show ?case by auto
next
  case (Cons x entries)
  obtain storyId entry where x: "x = (storyId, entry)" by (cases x)
  let ?csf = "map_of cached (importPath entry)"
  from storyFromCSFFile_args[where s = s and a = a and storyId = storyId and csfFile = ?csf] obtain a1 where
    a1: "storyFromCSFFile (s\<lparr>args := a\<rparr>) storyId ?csf =
          (fst (storyFromCSFFile s storyId ?csf), snd (storyFromCSFFile s storyId ?csf)\<lparr>args := a1\<rparr>)"
    by blast
  show ?case
  proof (cases "entry_type entry = docs")
    case True
    with Cons.IH[where acc = acc and s = s and a = a] x show ?thesis by simp
  next
    case False
    show ?thesis
    proof (cases "fst (storyFromCSFFile s storyId ?csf)")
      case (Inl e)
      with False x a1 show ?thesis by (auto simp: split_beta)
    next
      case (Inr st)
      let ?s1 = "snd (storyFromCSFFile s storyId ?csf)"
      note ih1 = Cons.IH[where acc = "AList.update storyId (extract_story (snd st)) acc" and s = ?s1
          and a = a1]
      note ih2 = Cons.IH[where acc = acc and s = ?s1 and a = a1]
      show ?thesis
      proof (cases b)
        case True
        with Inr False x a1 ih1 show ?thesis by (simp add: split_beta)
      next
        case nb: False
        show ?thesis
        proof (cases "get_member (get_prop (snd st) ''parameters'') ''docsOnly''")
          case (Inl e)
          with nb Inr False x a1 show ?thesis by (auto simp: split_beta)
        next
          case (Inr d)
          with nb \<open>fst (storyFromCSFFile s storyId ?csf) = Inr st\<close> False x a1 ih1 ih2
          show ?thesis by (simp add: split_beta)
        qed
      qed
    qed
  qed
qed

lemma extractStories_args: "fst (extractStories b (s\<lparr>args := a\<rparr>)) = fst (extractStories b s)"
proof (cases "storyIndex s")
  case None
  then show ?thesis by (simp add: extractStories_def)
next
  case (Some entries)
  show ?thesis
  proof (cases "cachedCSFFiles s")
    case None
    with Some show ?thesis by (simp add: extractStories_def)
  next
    case c: (Some cached)
    from extract_reduce_args[where b = False and cached = cached and entries = entries and acc = "[]"
        and s = s and a = a]
      extract_reduce_args[where b = True and cached = cached and entries = entries and acc = "[]"
        and s = s and a = a] Some c
    show ?thesis by (cases b) (auto simp: extractStories_def)
  qed
qed

lemma extract_pure_success:
  "extract_pure b prepare pa cached entries acc = Inr res \<Longrightarrow> (i, entry) \<in> set entries \<Longrightarrow>
   entry_type entry = story \<Longrightarrow>
   \<exists>st. prepare_pure prepare pa i (map_of cached (importPath entry)) = Inr st \<and>
        (\<not> b \<longrightarrow> (\<exists>d. get_member (get_prop st ''parameters'') ''docsOnly'' = Inr d))"
proof (induction entries arbitrary: acc)
  case Nil
  then show ?case by simp
next
  case (Cons x entries)
  obtain j e where x: "x = (j, e)" by (cases x)
  show ?case
  proof (cases "(i, entry) = (j, e)")
    case True
    with Cons.prems(1,3) x show ?thesis
      by (auto split: sum.splits if_splits)
  next
    case False
    with Cons.prems(2) x have m: "(i, entry) \<in> set entries" by auto
    from Cons.prems(1) x obtain acc' where "extract_pure b prepare pa cached entries acc' = Inr res"
      by (auto split: sum.splits if_splits)
    from Cons.IH[OF this m Cons.prems(3)] show ?thesis .
  qed
qed

lemma extract_fold_distinct:
  "distinct (map fst acc) \<Longrightarrow>
   distinct (map fst (fold (\<lambda>(key, v) storyAcc.
             if key = ''moduleExport'' then storyAcc
             else (case v of
                     JFun f \<Rightarrow> storyAcc
                   | JArr xs \<Rightarrow> AList.update key (JArr (sort xs)) storyAcc
                   | _ \<Rightarrow> AList.update key v storyAcc)) st acc))"
proof (induction st arbitrary: acc)
  case Nil
  then show ?case by simp
next
  case (Cons x st)
  obtain key v where x: "x = (key, v)" by (cases x)
  show ?case unfolding x fold_simps
    by (rule Cons.IH) (use Cons.prems in \<open>auto simp: distinct_update split: jsval.splits\<close>)
qed

lemma extract_story_distinct: "distinct (map fst (extract_story st))"
  unfolding extract_story_def by (rule extract_fold_distinct) simp

lemma extract_story_serializable:
  assumes so: "story_object st"
    and vals: "\<forall>k v. map_of st k = Some v \<and> k \<noteq> ''moduleExport'' \<and> (\<forall>g. v \<noteq> JFun g) \<longrightarrow> serializable v"
    and ia: "serializable (get_prop st ''initialArgs'')"
  shows "serializable (JObj (extract_story st))"
proof -
  have "serializable (snd p)" if p: "p \<in> set (extract_story st)" for p
  proof -
    obtain k v where kv: "p = (k, v)" by (cases p)
    from p kv extract_story_distinct[of st] have m: "map_of (extract_story st) k = Some v" by simp
    show ?thesis
    proof (cases "k = ''args''")
      case True
      with m extract_story_map_of[OF so, of k] ia kv show ?thesis by simp
    next
      case na: False
      show ?thesis
      proof (cases "k = ''moduleExport''")
        case True
        with m extract_story_map_of[OF so, of k] show ?thesis by simp
      next
        case False
        with na m extract_story_map_of[OF so, of k] obtain v0 where v0: "map_of st k = Some v0"
          by (cases "map_of st k") auto
        show ?thesis
        proof (cases v0)
          case (JFun g)
          with v0 na False m extract_story_map_of[OF so, of k] show ?thesis by simp
        next
          case (JArr xs)
          with v0 na False m extract_story_map_of[OF so, of k] kv show ?thesis by auto
        next
          case JUndefined
          with v0 na False m extract_story_map_of[OF so, of k] kv show ?thesis by auto
        next
          case JNull
          with v0 na False m extract_story_map_of[OF so, of k] kv show ?thesis by auto
        next
          case (JBool x)
          with v0 na False m extract_story_map_of[OF so, of k] kv show ?thesis by auto
        next
          case (JStr x)
          with v0 na False m extract_story_map_of[OF so, of k] kv show ?thesis by auto
        next
          case (JObj props)
          with v0 False vals have "serializable v0" by blast
          with JObj v0 na False m extract_story_map_of[OF so, of k] kv show ?thesis by auto
        qed
      qed
    qed
  qed
  then show ?thesis by (simp add: list_all_iff)
qed

lemma ex_cached_fields:
  "storyIndex ex_cached = Some ex_index" "cachedCSFFiles ex_cached = Some ex_cached_files"
  "lru (prepareStoryWithCache ex_cached) = []" "projectAnnotations ex_cached = Some (0, [])"
  "fn (prepareStoryWithCache ex_cached) = (\<lambda>(sa, ca, pa). ex_prepareStory sa ca pa)"
  "importFn ex_cached = Some ex_importFn" "initialized ex_cached"
  "computed (prepareStoryWithCache ex_cached) = 0" "limit (prepareStoryWithCache ex_cached) = 10000"
  by (simp_all add: ex_defs store_defs load_defs gate_defs)

lemma ex_cached_consistent: "memo_consistent (prepareStoryWithCache ex_cached)"
  by (simp add: memo_consistent_def ex_cached_fields)

lemma ex_extract_False:
  "fst (extractStories False ex_cached) =
     Inr [(''Button--Primary'', ex_primary_view), (''Input--Basic'', ex_input_view)]"
  unfolding extractStories_pure[OF ex_cached_consistent ex_cached_fields(1,2)] ex_cached_fields
  by (simp add: ex_index_def ex_cached_files_def ex_button_file_def ex_input_file_def ex_intro_file_def
        prepare_pure_def ex_prepareStory_def get_prop_def get_member_def extract_story_def
        ex_primary_view_def ex_input_view_def)

lemma ex_extract_True:
  "fst (extractStories True ex_cached) =
     Inr [(''Button--Primary'', ex_primary_view), (''Button--Docs'', ex_docs_view),
          (''Input--Basic'', ex_input_view)]"
  unfolding extractStories_pure[OF ex_cached_consistent ex_cached_fields(1,2)] ex_cached_fields
  by (simp add: ex_index_def ex_cached_files_def ex_button_file_def ex_input_file_def ex_intro_file_def
        prepare_pure_def ex_prepareStory_def get_prop_def get_member_def extract_story_def
        ex_primary_view_def ex_input_view_def ex_docs_view_def)

lemma ex_prepare_docs:
  "fst (storyFromCSFFile ex_cached ''Button--Docs'' (map_of ex_cached_files ''./Button.stories.js''))
     = Inr (0, ex_docs)"
  by (simp add: storyFromCSFFile_def ex_cached_fields memo_call_def ex_cached_files_def
        ex_button_file_def ex_prepareStory_def get_prop_def ex_docs_def)

lemma ex_prepare_primary:
  "fst (storyFromCSFFile ex_cached ''Button--Primary'' (map_of ex_cached_files ''./Button.stories.js''))
     = Inr (0, ex_primary)"
  by (simp add: storyFromCSFFile_def ex_cached_fields memo_call_def ex_cached_files_def
        ex_button_file_def ex_prepareStory_def get_prop_def ex_primary_def)


lemma ex_list_cached_fields:
  "storyIndex ex_list_cached = Some ex_list_index"
  "cachedCSFFiles ex_list_cached = Some [(''./List.stories.js'', 0, ex_list_file)]"
  "lru (prepareStoryWithCache ex_list_cached) = []" "projectAnnotations ex_list_cached = Some (0, [])"
  "fn (prepareStoryWithCache ex_list_cached) = (\<lambda>(sa, ca, pa). ex_list_prepareStory sa ca pa)"
  "computed (prepareStoryWithCache ex_list_cached) = 0"
  "limit (prepareStoryWithCache ex_list_cached) = 10000"
  by (simp_all add: ex_defs store_defs load_defs gate_defs)

lemma ex_list_cached_consistent: "memo_consistent (prepareStoryWithCache ex_list_cached)"
  by (simp add: memo_consistent_def ex_list_cached_fields)

section \<open>What loading changes, and that it ends\<close>

lemma same_but_loading_refl [simp]: "same_but_loading s s"
  by (simp add: same_but_loading_def)

lemma same_but_loading_trans:
  "same_but_loading s s1 \<Longrightarrow> same_but_loading s1 s2 \<Longrightarrow> same_but_loading s s2"
  unfolding same_but_loading_def
  by (metis (no_types, lifting) StoryStore.surjective StoryStore.update_convs(7,10) StoryStore.select_convs(7,10))

lemma same_but_loadingD:
  assumes "same_but_loading s s'"
  shows "storyIndex s' = storyIndex s" "importFn s' = importFn s"
    "projectAnnotations s' = projectAnnotations s" "args s' = args s" "hooks s' = hooks s"
    "cachedCSFFiles s' = cachedCSFFiles s" "prepareStoryWithCache s' = prepareStoryWithCache s"
    "initialized s' = initialized s"
proof -
  from assms have e: "s' = s\<lparr>processCSFFileWithCache := processCSFFileWithCache s', loads := loads s'\<rparr>"
    by (simp add: same_but_loading_def)
  show "storyIndex s' = storyIndex s" by (subst e) simp
  show "importFn s' = importFn s" by (subst e) simp
  show "projectAnnotations s' = projectAnnotations s" by (subst e) simp
  show "args s' = args s" by (subst e) simp
  show "hooks s' = hooks s" by (subst e) simp
  show "cachedCSFFiles s' = cachedCSFFiles s" by (subst e) simp
  show "prepareStoryWithCache s' = prepareStoryWithCache s" by (subst e) simp
  show "initialized s' = initialized s" by (subst e) simp
qed

lemma start_load_frame: "start_load s storyId = Inr (l, s') \<Longrightarrow> same_but_loading s s'"
  by (auto simp: start_load_def same_but_loading_def split: option.splits sum.splits)

lemma settle_load_frame: "same_but_loading s (snd (settle_load s l))"
  by (auto simp: settle_load_def same_but_loading_def Let_def split: sum.splits)

lemma start_all_frame: "same_but_loading s (snd (snd (start_all s batch)))"
proof (induction batch arbitrary: s)
  case Nil
  show ?case by simp
next
  case (Cons x batch)
  obtain path storyId where x: "x = (path, storyId)" by (cases x)
  show ?case
  proof (cases "start_load s storyId")
    case (Inl e)
    with x show ?thesis by simp
  next
    case (Inr ls)
    obtain l s1 where ls: "ls = (l, s1)" by (cases ls)
    from Inr ls have "same_but_loading s s1" by (auto intro: start_load_frame)
    from same_but_loading_trans[OF this Cons.IH[of s1]] Inr ls x show ?thesis
      by (simp add: split_beta)
  qed
qed

lemma settle_all_frame: "same_but_loading s (snd (settle_all s ls))"
proof (induction ls arbitrary: s)
  case Nil
  show ?case by simp
next
  case (Cons x ls)
  obtain i path l where x: "x = (i, path, l)" by (cases x)
  from same_but_loading_trans[OF settle_load_frame[of s l] Cons.IH[of "snd (settle_load s l)"]] x
  show ?case by (simp add: split_beta)
qed

lemma loadBatch_frame: "same_but_loading s (snd (loadBatch s batch))"
proof -
  have "snd (loadBatch s batch) =
      snd (settle_all (snd (snd (start_all s batch))) (completion_order (fst (snd (start_all s batch)))))"
    by (simp add: loadBatch_def split_beta split: option.splits)
  with same_but_loading_trans[OF start_all_frame settle_all_frame] show ?thesis by simp
qed

lemma loadInBatches_frame:
  assumes "loadInBatches n s xs = Some y"
  shows "same_but_loading s (snd y)"
proof (rule loadInBatches.raw_induct[where P = "\<lambda>n s xs y. same_but_loading s (snd y)", OF _ assms],
    goal_cases)
  case (1 rec n s xs y)
  show ?case
  proof (cases "xs = []")
    case True
    with 1(2) show ?thesis by auto
  next
    case False
    obtain o1 s1 where b: "loadBatch s (take n xs) = (o1, s1)" by (cases "loadBatch s (take n xs)")
    from loadBatch_frame[of s "take n xs"] b have f1: "same_but_loading s s1" by simp
    show ?thesis
    proof (cases o1)
      case (Resolved firstResults)
      with 1(2) False b obtain y' where r: "rec n s1 (drop n xs) = Some y'" and y: "snd y = snd y'"
        by (auto simp: split_beta split: Option.bind_splits)
      from 1(1)[OF r] have "same_but_loading s1 (snd y')" .
      with f1 y show ?thesis by (auto intro: same_but_loading_trans)
    next
      case (Rejected e)
      with 1(2) False b f1 show ?thesis by auto
    next
      case (Threw e)
      with 1(2) False b f1 show ?thesis by auto
    qed
  qed
qed

lemma loadInBatches_total:
  "0 < n \<Longrightarrow> \<exists>y. loadInBatches n s xs = Some y"
proof (induction xs arbitrary: s rule: length_induct)
  case (1 xs)
  show ?case
  proof (cases xs)
    case Nil
    then show ?thesis by simp
  next
    case (Cons x xs')
    obtain o1 s1 where b: "loadBatch s (take n (x # xs')) = (o1, s1)"
      by (cases "loadBatch s (take n (x # xs'))")
    show ?thesis
    proof (cases o1)
      case (Resolved firstResults)
      have "length (drop n (x # xs')) < length xs" using 1(2) Cons by simp
      with 1(1) 1(2) obtain y where "loadInBatches n s1 (drop n (x # xs')) = Some y" by blast
      with Resolved b show ?thesis
        unfolding Cons loadInBatches_Cons by (simp add: split_beta)
    next
      case (Rejected e)
      with b show ?thesis unfolding Cons loadInBatches_Cons by simp
    next
      case (Threw e)
      with b show ?thesis unfolding Cons loadInBatches_Cons by simp
    qed
  qed
qed

lemma loadAllCSFFiles_frame:
  "loadAllCSFFiles n s = Some y \<Longrightarrow> same_but_loading s (snd y)"
  by (auto simp: loadAllCSFFiles_def split_beta dest: loadInBatches_frame
        split: option.splits Option.bind_splits)

lemma loadAllCSFFiles_total: "0 < n \<Longrightarrow> \<exists>y. loadAllCSFFiles n s = Some y"
proof (cases "storyIndex s")
  case None
  then show ?thesis by (simp add: loadAllCSFFiles_def)
next
  case (Some entries)
  assume "0 < n"
  from loadInBatches_total[OF this] obtain y where
    "loadInBatches n s (map (\<lambda>(storyId, entry). (importPath entry, storyId)) entries) = Some y"
    by blast
  with Some show ?thesis by (simp add: loadAllCSFFiles_def split_beta)
qed

lemma cacheAllCSFFiles_body_total: "\<exists>y. cacheAllCSFFiles_body s = Some y"
proof -
  from loadAllCSFFiles_total[of EXTRACT_BATCH_SIZE s] obtain y where
    "loadAllCSFFiles EXTRACT_BATCH_SIZE s = Some y" by (auto simp: EXTRACT_BATCH_SIZE_def)
  then show ?thesis by (simp add: cacheAllCSFFiles_body_def split_beta)
qed

lemma cacheAllCSFFiles_body_gate:
  assumes "cacheAllCSFFiles_body s = Some y"
  shows "initialized (snd y) = initialized s"
proof -
  from assms obtain y' where l: "loadAllCSFFiles EXTRACT_BATCH_SIZE s = Some y'"
    and y: "initialized (snd y) = initialized (snd y')"
    by (cases "loadAllCSFFiles EXTRACT_BATCH_SIZE s")
      (auto simp: cacheAllCSFFiles_body_def split_beta split: outcome.splits)
  from same_but_loadingD(8)[OF loadAllCSFFiles_frame[OF l]] y show ?thesis by simp
qed

lemma run_gated_total: "\<exists>y. run_gated op s = Some y"
proof (cases op)
  case (OnStoriesChanged f i)
  then show ?thesis
    using cacheAllCSFFiles_body_total by (auto simp: run_gated_def split: sum.splits option.splits)
next
  case CacheAllCSFFiles
  then show ?thesis using cacheAllCSFFiles_body_total by (simp add: run_gated_def)
qed (simp_all add: run_gated_def)

lemma loadCSFFileByStoryId_frame: "same_but_loading s (snd (loadCSFFileByStoryId s storyId))"
proof (cases "start_load s storyId")
  case (Inl e)
  then show ?thesis by (simp add: loadCSFFileByStoryId_def)
next
  case (Inr ls)
  obtain l s1 where ls: "ls = (l, s1)" by (cases ls)
  from Inr ls have "same_but_loading s s1" by (auto intro: start_load_frame)
  from same_but_loading_trans[OF this settle_load_frame[of s1 l]] Inr ls show ?thesis
    by (simp add: loadCSFFileByStoryId_def split_beta split: sum.splits)
qed

lemma storyFromCSFFile_gate:
  "initialized (snd (storyFromCSFFile s storyId csfFile)) = initialized s"
  by (simp add: storyFromCSFFile_def Let_def split: option.splits sum.splits prod.splits)

lemma run_gated_gate:
  assumes "run_gated op s = Some y"
  shows "initialized (snd y) = initialized s"
proof (cases op)
  case (LoadStory storyId)
  let ?l = "loadCSFFileByStoryId s storyId"
  note f = same_but_loadingD(8)[OF loadCSFFileByStoryId_frame[of s storyId]]
  from assms LoadStory have
    "snd y = snd ?l \<or> (\<exists>c. snd y = snd (storyFromCSFFile (snd ?l) storyId c))"
    by (auto simp: run_gated_def split_beta split: outcome.splits sum.splits)
  with f storyFromCSFFile_gate show ?thesis by auto
next
  case (StoryIdToEntry storyId)
  with assms show ?thesis by (auto simp: run_gated_def split: option.splits sum.splits)
next
  case (OnStoriesChanged f i)
  show ?thesis
  proof (cases "replace_inputs f i s")
    case (Inl e)
    with assms OnStoriesChanged show ?thesis by (auto simp: run_gated_def split: option.splits)
  next
    case (Inr s1)
    then have s1: "initialized s1 = initialized s"
      by (auto simp: replace_inputs_def Let_def split: option.splits)
    show ?thesis
    proof (cases "cachedCSFFiles s1")
      case None
      with assms OnStoriesChanged Inr s1 show ?thesis by (auto simp: run_gated_def)
    next
      case (Some old)
      with assms OnStoriesChanged Inr have "cacheAllCSFFiles_body s1 = Some y"
        by (simp add: run_gated_def)
      from cacheAllCSFFiles_body_gate[OF this] s1 show ?thesis by simp
    qed
  qed
next
  case CacheAllCSFFiles
  with assms have "cacheAllCSFFiles_body s = Some y" by (simp add: run_gated_def)
  from cacheAllCSFFiles_body_gate[OF this] show ?thesis .
qed

section \<open>The initialization gate\<close>

lemma extract_reduce_gate:
  "initialized (snd (extract_reduce b cached entries acc s)) = initialized s"
proof (induction entries arbitrary: acc s)
  case Nil
  show ?case by simp
next
  case (Cons x entries)
  obtain storyId entry where x: "x = (storyId, entry)" by (cases x)
  let ?r = "storyFromCSFFile s storyId (map_of cached (importPath entry))"
  have g: "initialized (snd ?r) = initialized s" using storyFromCSFFile_gate by simp
  have ih: "initialized (snd (extract_reduce b cached entries acc' (snd ?r))) = initialized s" for acc'
    using Cons.IH[of acc' "snd ?r"] g by simp
  show ?case
    unfolding x using g ih Cons.IH[of acc s]
    by (cases "fst ?r") (auto simp: split_beta split: sum.splits)
qed

lemma gate_initialized:
  assumes "initialized s" "gate op s = Some (x, s1)"
  shows "x \<noteq> None \<and> initialized s1"
proof -
  from assms obtain r where r: "run_gated op s = Some (r, s1)" "x = Some r"
    by (auto simp: gate_def)
  with run_gated_gate[OF r(1)] assms(1) show ?thesis by simp
qed


section \<open>Loading in batches\<close>

lemma chunks_Nil [simp]: "chunks n [] = []"
  by (simp add: chunks.simps)

lemma chunks_Cons: "0 < n \<Longrightarrow> chunks n (x # xs) = take n (x # xs) # chunks n (drop n (x # xs))"
  by (subst chunks.simps) simp

lemma chunks_map: "chunks n (map g xs) = map (map g) (chunks n xs)"
proof (induction n xs rule: chunks.induct)
  case (1 n xs)
  show ?case
  proof (cases "n = 0 \<or> xs = []")
    case True
    then show ?thesis by (auto simp: chunks.simps)
  next
    case False
    with 1 have "chunks n (map g (drop n xs)) = map (map g) (chunks n (drop n xs))" by simp
    with False show ?thesis
      by (subst chunks.simps, subst (2) chunks.simps) (simp add: take_map drop_map)
  qed
qed

lemma concat_chunks: "0 < n \<Longrightarrow> concat (chunks n xs) = xs"
proof (induction n xs rule: chunks.induct)
  case (1 n xs)
  show ?case
  proof (cases "xs = []")
    case True
    then show ?thesis by simp
  next
    case False
    with 1 have "concat (chunks n (drop n xs)) = drop n xs" by simp
    with False 1(2) show ?thesis by (subst chunks.simps) simp
  qed
qed

lemma loadInBatches_chunks:
  "0 < n \<Longrightarrow> loadInBatches n s xs = Some (run_batches s (chunks n xs))"
proof (induction xs arbitrary: s rule: length_induct)
  case (1 xs)
  show ?case
  proof (cases xs)
    case Nil
    then show ?thesis by simp
  next
    case (Cons x xs')
    obtain o1 s1 where b: "loadBatch s (take n (x # xs')) = (o1, s1)"
      by (cases "loadBatch s (take n (x # xs'))")
    have "length (drop n (x # xs')) < length xs" using 1(2) Cons by simp
    with 1 have ih: "loadInBatches n s1 (drop n (x # xs')) = Some (run_batches s1 (chunks n (drop n (x # xs'))))"
      by blast
    show ?thesis
      unfolding Cons loadInBatches_Cons chunks_Cons[OF 1(2)] run_batches.simps b
      by (cases o1) (simp_all add: ih split_beta split: outcome.splits)
  qed
qed

lemma map_insort_key:
  assumes "\<forall>y \<in> set (x # xs). key y = k (g y)"
  shows "map g (insort_key key x xs) = insort_key k (g x) (map g xs)"
  using assms by (induction xs) auto

lemma map_sort_key:
  assumes "\<forall>y \<in> set xs. key y = k (g y)"
  shows "map g (sort_key key xs) = sort_key k (map g xs)"
  using assms
proof (induction xs)
  case Nil
  show ?case by simp
next
  case (Cons x xs)
  have "map g (insort_key key x (sort_key key xs)) = insort_key k (g x) (map g (sort_key key xs))"
    using Cons.prems by (intro map_insort_key) auto
  with Cons show ?case by simp
qed

lemma sort_by_index:
  assumes "mset ys = mset (zip [0..<length ps] ps)"
  shows "sort_key fst ys = zip [0..<length ps] ps"
proof (rule sort_key_inj_key_eq[OF assms])
  have "set ys = set (zip [0..<length ps] ps)" using assms by (rule mset_eq_setD)
  moreover have "distinct (map fst (zip [0..<length ps] ps))" by simp
  ultimately show "inj_on fst (set ys)" by (metis distinct_map)
  show "sorted (map fst (zip [0..<length ps] ps))" by simp
qed

lemma map_zip_index: "map (\<lambda>p. h (snd p)) (zip [0..<length xs] xs) = map h xs"
  by (rule nth_equalityI) auto

lemma start_all_ok:
  assumes "storyIndex s = Some entries" "importFn s = Some f"
    and "\<forall>(storyId, entry) \<in> set es. map_of entries storyId = Some entry"
  shows "start_all s (entry_items es) =
     (None, map (\<lambda>(storyId, entry). (importPath entry, load_of f entry)) es,
      s\<lparr>loads := loads s @ map Called (entry_paths es)\<rparr>)"
  using assms
proof (induction es arbitrary: s)
  case Nil
  show ?case by (simp add: entry_items_def entry_paths_def)
next
  case (Cons x es)
  obtain storyId entry where x: "x = (storyId, entry)" by (cases x)
  let ?s1 = "s\<lparr>loads := loads s @ [Called (importPath entry)]\<rparr>"
  from Cons.prems x have "start_load s storyId = Inr (load_of f entry, ?s1)"
    by (simp add: start_load_def StoryIndexStore_storyIdToEntry_def load_of_def)
  moreover have "start_all ?s1 (entry_items es) =
     (None, map (\<lambda>(storyId, entry). (importPath entry, load_of f entry)) es,
      ?s1\<lparr>loads := loads ?s1 @ map Called (entry_paths es)\<rparr>)"
    using Cons.prems by (intro Cons.IH) auto
  ultimately show ?case using x by (simp add: entry_items_def entry_paths_def)
qed

lemma settle_all_loads:
  "loads (snd (settle_all s ls)) = loads s @ map (\<lambda>(i, path, l). Settled (load_path l)) ls"
proof (induction ls arbitrary: s)
  case Nil
  show ?case by simp
next
  case (Cons x ls)
  obtain i path l where x: "x = (i, path, l)" by (cases x)
  have "loads (snd (settle_load s l)) = loads s @ [Settled (load_path l)]"
    by (simp add: settle_load_def Let_def split: sum.splits)
  with Cons[of "snd (settle_load s l)"] x show ?case by (simp add: split_beta)
qed

lemma settle_load_pure:
  assumes "memo_consistent (processCSFFileWithCache s)"
  shows "map_sum id snd (fst (settle_load s l)) = load_result (fn (processCSFFileWithCache s)) l"
    and "memo_consistent (processCSFFileWithCache (snd (settle_load s l)))"
    and "fn (processCSFFileWithCache (snd (settle_load s l))) = fn (processCSFFileWithCache s)"
proof -
  have "map_sum id snd (fst (settle_load s l)) = load_result (fn (processCSFFileWithCache s)) l \<and>
        memo_consistent (processCSFFileWithCache (snd (settle_load s l))) \<and>
        fn (processCSFFileWithCache (snd (settle_load s l))) = fn (processCSFFileWithCache s)"
  proof (cases "loaded l")
    case (Inl e)
    with assms show ?thesis by (simp add: settle_load_def load_result_def)
  next
    case (Inr m)
    from memo_consistent_call[OF assms, of "(m, load_path l, load_title l)"] Inr
    show ?thesis by (simp add: settle_load_def load_result_def Let_def)
  qed
  then show "map_sum id snd (fst (settle_load s l)) = load_result (fn (processCSFFileWithCache s)) l"
    and "memo_consistent (processCSFFileWithCache (snd (settle_load s l)))"
    and "fn (processCSFFileWithCache (snd (settle_load s l))) = fn (processCSFFileWithCache s)"
    by simp_all
qed

lemma settle_all_pure:
  assumes "memo_consistent (processCSFFileWithCache s)"
  shows "map (\<lambda>(i, path, r). (i, path, map_sum id snd r)) (fst (settle_all s ls)) =
           map (\<lambda>(i, path, l). (i, path, load_result (fn (processCSFFileWithCache s)) l)) ls \<and>
         memo_consistent (processCSFFileWithCache (snd (settle_all s ls))) \<and>
         fn (processCSFFileWithCache (snd (settle_all s ls))) = fn (processCSFFileWithCache s)"
  using assms
proof (induction ls arbitrary: s)
  case Nil
  then show ?case by simp
next
  case (Cons x ls)
  obtain i path l where x: "x = (i, path, l)" by (cases x)
  note p = settle_load_pure[OF Cons.prems, of l]
  from Cons.IH[OF p(2)] p(1,3) x show ?case by (simp add: split_beta id_def)
qed

lemma first_rejection_None_iff:
  "first_rejection settled = None \<longleftrightarrow> (\<forall>x \<in> set settled. \<not> isl (snd (snd x)))"
  by (induction settled rule: first_rejection.induct) auto

lemma first_rejection_SomeD:
  "first_rejection settled = Some e \<Longrightarrow> \<exists>i path. (i, path, Inl e) \<in> set settled"
  by (induction settled rule: first_rejection.induct) auto

lemma fulfilled_all:
  "first_rejection settled = None \<Longrightarrow>
   map (\<lambda>(i, path, c). (i, path, Inr c)) (fulfilled settled) = settled"
  by (induction settled rule: first_rejection.induct) auto

lemma completion_order_paths:
  "map (\<lambda>(i, path, l). Settled (load_path l))
     (completion_order (map (\<lambda>(storyId, entry). (importPath entry, load_of f entry)) es)) =
   map Settled (sort_key (\<lambda>path. fst (f path)) (entry_paths es))"
proof -
  let ?started = "map (\<lambda>(storyId, entry). (importPath entry, load_of f entry)) es"
  let ?z = "zip [0..<length ?started] ?started"
  let ?g = "\<lambda>p :: nat \<times> Path \<times> Load. load_path (snd (snd p))"
  have key: "\<forall>y \<in> set ?z. (\<lambda>(i, path, l). settles_at l) y = (\<lambda>path. fst (f path)) (?g y)"
    by (auto simp: load_of_def dest!: set_zip_rightD)
  have "map ?g ?z = map (\<lambda>q. load_path (snd q)) ?started"
    by (rule map_zip_index)
  also have "\<dots> = entry_paths es"
    by (simp add: split_beta load_of_def comp_def entry_paths_def)
  finally have paths: "map ?g ?z = entry_paths es" .
  have "map ?g (completion_order ?started) = sort_key (\<lambda>path. fst (f path)) (map ?g ?z)"
    unfolding completion_order_def using key by (rule map_sort_key)
  with paths have "map ?g (completion_order ?started) =
      sort_key (\<lambda>path. fst (f path)) (entry_paths es)" by simp
  then have m: "map Settled (map ?g (completion_order ?started)) =
      map Settled (sort_key (\<lambda>path. fst (f path)) (entry_paths es))"
    by simp
  have "map (\<lambda>(i, path, l). Settled (load_path l)) (completion_order ?started) =
      map Settled (map ?g (completion_order ?started))"
    by (simp add: split_beta comp_def)
  from this m show ?thesis by (rule trans)
qed

lemma loadBatch_spec:
  assumes idx: "storyIndex s = Some entries" and imp: "importFn s = Some f"
    and es: "\<forall>(storyId, entry) \<in> set es. map_of entries storyId = Some entry"
    and mc: "memo_consistent (processCSFFileWithCache s)"
  shows "loads (snd (loadBatch s (entry_items es))) = loads s @ batch_events f (entry_paths es)"
    and "memo_consistent (processCSFFileWithCache (snd (loadBatch s (entry_items es))))"
    and "fn (processCSFFileWithCache (snd (loadBatch s (entry_items es)))) = fn (processCSFFileWithCache s)"
    and "fst (loadBatch s (entry_items es)) \<noteq> Threw e"
    and "fst (loadBatch s (entry_items es)) = Resolved results \<Longrightarrow>
         map file_content results = map (entry_file (fn (processCSFFileWithCache s)) f) es"
    and "fst (loadBatch s (entry_items es)) = Rejected e \<Longrightarrow>
         \<exists>x \<in> set es. snd (entry_file (fn (processCSFFileWithCache s)) f x) = Inl e"
proof -
  let ?F = "fn (processCSFFileWithCache s)"
  let ?started = "map (\<lambda>(storyId, entry). (importPath entry, load_of f entry)) es"
  let ?s1 = "s\<lparr>loads := loads s @ map Called (entry_paths es)\<rparr>"
  let ?co = "completion_order ?started"
  let ?settled = "fst (settle_all ?s1 ?co)"
  let ?ps = "map (entry_file ?F f) es"
  let ?proj = "\<lambda>(i, path, r). (i, path, map_sum id snd r) :: nat \<times> Path \<times> (error + CSFFile_content)"
  let ?h = "\<lambda>(i, path, l). (i, path, load_result ?F l)"
  note st = start_all_ok[OF idx imp es]
  have lb: "loadBatch s (entry_items es) = (promise_all ?settled, snd (settle_all ?s1 ?co))"
    by (simp add: loadBatch_def st split_beta)
  from mc have mc1: "memo_consistent (processCSFFileWithCache ?s1)" by simp
  from settle_all_pure[OF mc1, of ?co]
  have P: "map ?proj ?settled = map ?h ?co"
    and M: "memo_consistent (processCSFFileWithCache (snd (settle_all ?s1 ?co)))"
    and Fn: "fn (processCSFFileWithCache (snd (settle_all ?s1 ?co))) = ?F"
    by simp_all
  show "loads (snd (loadBatch s (entry_items es))) = loads s @ batch_events f (entry_paths es)"
    unfolding lb by (simp add: settle_all_loads completion_order_paths batch_events_def)
  show "memo_consistent (processCSFFileWithCache (snd (loadBatch s (entry_items es))))"
    unfolding lb using M by simp
  show "fn (processCSFFileWithCache (snd (loadBatch s (entry_items es)))) = ?F"
    unfolding lb using Fn by simp
  show "fst (loadBatch s (entry_items es)) \<noteq> Threw e"
    unfolding lb by (simp add: promise_all_def split: option.splits)
  have ps: "?ps = map (\<lambda>(path, l). (path, load_result ?F l)) ?started"
    by (simp add: entry_file_def split_beta)
  have len: "length ?ps = length ?started" by simp
  have R: "map ?h (zip [0..<length ?started] ?started) = zip [0..<length ?ps] ?ps"
    unfolding len unfolding ps by (simp add: zip_map2 split_beta)
  have "mset (map ?h ?co) = mset (map ?h (zip [0..<length ?started] ?started))"
    by (simp add: completion_order_def)
  with P R have ms: "mset (map ?proj ?settled) = mset (zip [0..<length ?ps] ?ps)" by simp
  show "map file_content results = ?ps" if r: "fst (loadBatch s (entry_items es)) = Resolved results"
  proof -
    let ?g = "\<lambda>(i, path, c). (i, path, Inr (snd c)) :: nat \<times> Path \<times> (error + CSFFile_content)"
    from r have none: "first_rejection ?settled = None"
      and res: "results = map snd (sort_key fst (fulfilled ?settled))"
      unfolding lb by (auto simp: promise_all_def split: option.splits)
    have "map ?g (fulfilled ?settled) = map ?proj (map (\<lambda>(i, path, c). (i, path, Inr c)) (fulfilled ?settled))"
      by (simp add: split_beta)
    also have "\<dots> = map ?proj ?settled" using fulfilled_all[OF none] by simp
    finally have "mset (map ?g (fulfilled ?settled)) = mset (zip [0..<length ?ps] ?ps)"
      using ms by simp
    from sort_by_index[OF this]
    have "sort_key fst (map ?g (fulfilled ?settled)) = zip [0..<length ?ps] ?ps" .
    moreover have "map ?g (sort_key fst (fulfilled ?settled)) = sort_key fst (map ?g (fulfilled ?settled))"
      by (intro map_sort_key) auto
    ultimately have "map ?g (sort_key fst (fulfilled ?settled)) = zip [0..<length ?ps] ?ps" by simp
    then have "map snd (map ?g (sort_key fst (fulfilled ?settled))) = ?ps" by simp
    moreover have "map snd (map ?g (sort_key fst (fulfilled ?settled))) = map file_content results"
      unfolding res by (simp add: file_content_def split_beta comp_def)
    ultimately show ?thesis by simp
  qed
  show "\<exists>x \<in> set es. snd (entry_file ?F f x) = Inl e" if r: "fst (loadBatch s (entry_items es)) = Rejected e"
  proof -
    from r have "first_rejection ?settled = Some e"
      unfolding lb by (auto simp: promise_all_def split: option.splits)
    from first_rejection_SomeD[OF this] obtain i path where "(i, path, Inl e) \<in> set ?settled" by auto
    then have "(i, path, Inl e) \<in> set (map ?proj ?settled)" by force
    with P have "(i, path, Inl e) \<in> set (map ?h ?co)" by simp
    then obtain l where l: "(i, path, l) \<in> set ?co" "load_result ?F l = Inl e" by auto
    from l(1) have "(i, path, l) \<in> set (zip [0..<length ?started] ?started)"
      by (simp add: completion_order_def)
    then have "(path, l) \<in> set ?started" by (rule set_zip_rightD)
    then obtain x where "x \<in> set es" "path = importPath (snd x)" "l = load_of f (snd x)"
      by (auto simp: split_beta)
    with l(2) show ?thesis by (auto simp: entry_file_def split_beta)
  qed
qed

lemma run_batches_frame: "same_but_loading s (snd (run_batches s bs))"
proof (induction bs arbitrary: s)
  case Nil
  show ?case by simp
next
  case (Cons b bs)
  obtain o1 s1 where b: "loadBatch s b = (o1, s1)" by (cases "loadBatch s b")
  from loadBatch_frame[of s b] b have f1: "same_but_loading s s1" by simp
  from same_but_loading_trans[OF f1 Cons[of s1]] f1 b show ?case
    by (cases o1) (simp_all add: split_beta split: outcome.splits)
qed

lemma ok_batch_iff:
  "ok_batch F f es \<longleftrightarrow> (\<forall>x \<in> set es. \<not> isl (snd (entry_file F f x)))"
  by (simp add: ok_batch_def list_all_iff)

lemma started_batches_Nil [simp]: "started_batches F f [] = []"
  by (simp add: started_batches_def)

lemma started_batches_Cons:
  "started_batches F f (es # ebs) = (if ok_batch F f es then es # started_batches F f ebs else [es])"
  by (simp add: started_batches_def)

lemma resolved_ok_batch:
  assumes "map file_content results = map (entry_file F f) es"
  shows "ok_batch F f es"
  unfolding ok_batch_iff
proof
  fix x assume "x \<in> set es"
  then have "entry_file F f x \<in> set (map (entry_file F f) es)" by simp
  with assms have "entry_file F f x \<in> set (map file_content results)" by simp
  then show "\<not> isl (snd (entry_file F f x))" by (auto simp: file_content_def split_beta)
qed

lemma run_batches_spec:
  assumes idx: "storyIndex s = Some entries" and imp: "importFn s = Some f"
    and es: "\<forall>es \<in> set ebs. \<forall>(storyId, entry) \<in> set es. map_of entries storyId = Some entry"
    and mc: "memo_consistent (processCSFFileWithCache s)"
  shows "memo_consistent (processCSFFileWithCache (snd (run_batches s (map entry_items ebs)))) \<and>
         fn (processCSFFileWithCache (snd (run_batches s (map entry_items ebs)))) = fn (processCSFFileWithCache s) \<and>
         loads (snd (run_batches s (map entry_items ebs))) =
           loads s @ concat (map (\<lambda>es. batch_events f (entry_paths es))
                               (started_batches (fn (processCSFFileWithCache s)) f ebs)) \<and>
         (\<forall>e. fst (run_batches s (map entry_items ebs)) \<noteq> Threw e) \<and>
         (\<forall>results. fst (run_batches s (map entry_items ebs)) = Resolved results \<longrightarrow>
            map file_content results = map (entry_file (fn (processCSFFileWithCache s)) f) (concat ebs)) \<and>
         (\<forall>e. fst (run_batches s (map entry_items ebs)) = Rejected e \<longrightarrow>
            (\<exists>x \<in> set (concat ebs). snd (entry_file (fn (processCSFFileWithCache s)) f x) = Inl e))"
  using assms
proof (induction ebs arbitrary: s)
  case Nil
  then show ?case by simp
next
  case (Cons es ebs)
  let ?F = "fn (processCSFFileWithCache s)"
  obtain o1 s1 where b: "loadBatch s (entry_items es) = (o1, s1)"
    by (cases "loadBatch s (entry_items es)")
  from Cons.prems(3) have es: "\<forall>(storyId, entry) \<in> set es. map_of entries storyId = Some entry"
    and ebs: "\<forall>es \<in> set ebs. \<forall>(storyId, entry) \<in> set es. map_of entries storyId = Some entry"
    by simp_all
  note sp = loadBatch_spec[OF Cons.prems(1,2) es Cons.prems(4)]
  from sp(1) b have l1: "loads s1 = loads s @ batch_events f (entry_paths es)" by simp
  from sp(2) b have m1: "memo_consistent (processCSFFileWithCache s1)" by simp
  from sp(3) b have f1: "fn (processCSFFileWithCache s1) = ?F" by simp
  from loadBatch_frame[of s "entry_items es"] b have fr: "same_but_loading s s1" by simp
  from same_but_loadingD(1,2)[OF fr] Cons.prems(1,2)
  have i1: "storyIndex s1 = Some entries" "importFn s1 = Some f" by simp_all
  show ?case
  proof (cases o1)
    case (Threw e)
    with sp(4)[of e] b show ?thesis by simp
  next
    case (Rejected e)
    from sp(6)[of e] Rejected b
    have bad: "\<exists>x \<in> set es. snd (entry_file ?F f x) = Inl e" by simp
    then obtain x where "x \<in> set es" "isl (snd (entry_file ?F f x))" by force
    then have "\<not> ok_batch ?F f es" unfolding ok_batch_iff by blast
    then have sb: "started_batches ?F f (es # ebs) = [es]" by (simp add: started_batches_Cons)
    have rb: "run_batches s (map entry_items (es # ebs)) = (Rejected e, s1)"
      using b Rejected by simp
    from bad have bad': "\<exists>x \<in> set (concat (es # ebs)). snd (entry_file ?F f x) = Inl e" by auto
    show ?thesis unfolding rb sb using m1 f1 l1 bad' by simp
  next
    case (Resolved firstResults)
    from sp(5)[of firstResults] Resolved b
    have first: "map file_content firstResults = map (entry_file ?F f) es" by simp
    from resolved_ok_batch[OF this] have "ok_batch ?F f es" .
    then have sb: "started_batches ?F f (es # ebs) = es # started_batches ?F f ebs"
      by (simp add: started_batches_Cons)
    note ih = Cons.IH[OF i1 ebs m1, unfolded f1]
    obtain o2 s2 where r2: "run_batches s1 (map entry_items ebs) = (o2, s2)"
      by (cases "run_batches s1 (map entry_items ebs)")
    from ih r2 have m2: "memo_consistent (processCSFFileWithCache s2)"
      and f2: "fn (processCSFFileWithCache s2) = ?F"
      and l2: "loads s2 = loads s1 @ concat (map (\<lambda>es. batch_events f (entry_paths es))
                               (started_batches ?F f ebs))"
      and t2: "\<forall>e. o2 \<noteq> Threw e"
      and res2: "\<forall>results. o2 = Resolved results \<longrightarrow>
            map file_content results = map (entry_file ?F f) (concat ebs)"
      and rej2: "\<forall>e. o2 = Rejected e \<longrightarrow> (\<exists>x \<in> set (concat ebs). snd (entry_file ?F f x) = Inl e)"
      by simp_all
    show ?thesis
    proof (cases o2)
      case (Threw e)
      with t2 show ?thesis by simp
    next
      case (Rejected e)
      have rb: "run_batches s (map entry_items (es # ebs)) = (Rejected e, s2)"
        using b Resolved r2 Rejected by simp
      from rej2 Rejected have "\<exists>x \<in> set (concat (es # ebs)). snd (entry_file ?F f x) = Inl e" by auto
      then show ?thesis unfolding rb sb using m2 f2 l2 l1 by simp
    next
      case rest: (Resolved restResults)
      have rb: "run_batches s (map entry_items (es # ebs)) = (Resolved (firstResults @ restResults), s2)"
        using b Resolved r2 rest by simp
      from res2 rest have "map file_content restResults = map (entry_file ?F f) (concat ebs)" by simp
      with first have "map file_content (firstResults @ restResults) =
          map (entry_file ?F f) (concat (es # ebs))" by simp
      then show ?thesis unfolding rb sb using m2 f2 l2 l1 by simp
    qed
  qed
qed

lemma map_update:
  "map (\<lambda>(k, v). (k, h v)) (AList.update k v xs) = AList.update k (h v) (map (\<lambda>(k, v). (k, h v)) xs)"
  by (induction xs) auto

lemma fold_update_map:
  "map (\<lambda>(k, v). (k, h v)) (fold (\<lambda>(k, v) acc. AList.update k v acc) xs acc) =
   fold (\<lambda>(k, v) acc. AList.update k v acc) (map (\<lambda>(k, v). (k, h v)) xs) (map (\<lambda>(k, v). (k, h v)) acc)"
  by (induction xs arbitrary: acc) (auto simp: map_update)

lemma keys_fold_update:
  "map fst (fold (\<lambda>(k, v) acc. AList.update k v acc) xs acc) =
   map fst acc @ filter (\<lambda>k. k \<notin> set (map fst acc)) (first_occurrences (map fst xs))"
proof (induction xs arbitrary: acc)
  case Nil
  show ?case by simp
next
  case (Cons x xs)
  obtain k v where x: "x = (k, v)" by (cases x)
  show ?case
  proof (cases "k \<in> set (map fst acc)")
    case True
    then have u: "map fst (AList.update k v acc) = map fst acc" by (simp add: update_keys)
    have "filter (\<lambda>k'. k' \<notin> set (map fst acc)) (filter (\<lambda>y. y \<noteq> k) (first_occurrences (map fst xs))) =
          filter (\<lambda>k'. k' \<notin> set (map fst acc)) (first_occurrences (map fst xs))"
      using True by (auto intro: filter_cong)
    with Cons[of "AList.update k v acc"] u True x show ?thesis by simp
  next
    case False
    then have u: "map fst (AList.update k v acc) = map fst acc @ [k]" by (simp add: update_keys)
    have "filter (\<lambda>k'. k' \<notin> set (map fst acc @ [k])) (first_occurrences (map fst xs)) =
          filter (\<lambda>k'. k' \<notin> set (map fst acc)) (filter (\<lambda>y. y \<noteq> k) (first_occurrences (map fst xs)))"
      by (auto intro: filter_cong)
    with Cons[of "AList.update k v acc"] u False x show ?thesis by simp
  qed
qed

lemma started_batches_all: "\<forall>es \<in> set ebs. ok_batch F f es \<Longrightarrow> started_batches F f ebs = ebs"
  by (induction ebs) (simp_all add: started_batches_Cons)

lemma loadAllCSFFiles_run:
  assumes "storyIndex s = Some entries" "0 < n"
  shows "loadAllCSFFiles n s =
     Some (case fst (run_batches s (map entry_items (chunks n entries))) of
             Resolved list \<Rightarrow> Resolved (fold (\<lambda>(path, csfFile) acc. AList.update path csfFile acc) list [])
           | Rejected e \<Rightarrow> Rejected e
           | Threw e \<Rightarrow> Threw e,
           snd (run_batches s (map entry_items (chunks n entries))))"
proof -
  have "loadInBatches n s (map (\<lambda>(storyId, entry). (importPath entry, storyId)) entries) =
      Some (run_batches s (map entry_items (chunks n entries)))"
    using loadInBatches_chunks[OF assms(2), of s "entry_items entries"]
    by (simp add: entry_items_def[abs_def] chunks_map)
  with assms(1) show ?thesis by (simp add: loadAllCSFFiles_def split_beta)
qed

lemma loadAllCSFFiles_spec:
  assumes idx: "storyIndex s = Some entries" and imp: "importFn s = Some f"
    and dist: "distinct (map fst entries)"
    and mc: "memo_consistent (processCSFFileWithCache s)" and n: "0 < n"
  shows "\<exists>r s'. loadAllCSFFiles n s = Some (r, s') \<and> same_but_loading s s' \<and>
           memo_consistent (processCSFFileWithCache s') \<and>
           fn (processCSFFileWithCache s') = fn (processCSFFileWithCache s) \<and>
           loads s' = loads s @ concat (map (\<lambda>es. batch_events f (entry_paths es))
                               (started_batches (fn (processCSFFileWithCache s)) f (chunks n entries))) \<and>
           (\<forall>e. r \<noteq> Threw e) \<and>
           (\<forall>m. r = Resolved m \<longrightarrow>
              map file_content m = loaded_files (fn (processCSFFileWithCache s)) f entries) \<and>
           (\<forall>e. r = Rejected e \<longrightarrow>
              (\<exists>x \<in> set entries. snd (entry_file (fn (processCSFFileWithCache s)) f x) = Inl e))"
proof -
  let ?F = "fn (processCSFFileWithCache s)"
  let ?ebs = "chunks n entries"
  let ?rb = "run_batches s (map entry_items ?ebs)"
  have cc: "concat ?ebs = entries" using n by (rule concat_chunks)
  have es: "\<forall>es \<in> set ?ebs. \<forall>(storyId, entry) \<in> set es. map_of entries storyId = Some entry"
  proof (intro ballI, clarify)
    fix es storyId entry
    assume "es \<in> set ?ebs" "(storyId, entry) \<in> set es"
    then have "(storyId, entry) \<in> set (concat ?ebs)" by auto
    with cc have "(storyId, entry) \<in> set entries" by simp
    with dist show "map_of entries storyId = Some entry" by simp
  qed
  note sp = run_batches_spec[OF idx imp es mc, unfolded cc]
  note run = loadAllCSFFiles_run[OF idx n]
  obtain o1 s' where rb: "?rb = (o1, s')" by (cases ?rb)
  from run_batches_frame[of s "map entry_items ?ebs"] rb have fr: "same_but_loading s s'" by simp
  from sp rb have m: "memo_consistent (processCSFFileWithCache s')"
    and f: "fn (processCSFFileWithCache s') = ?F"
    and l: "loads s' = loads s @ concat (map (\<lambda>es. batch_events f (entry_paths es))
                               (started_batches ?F f ?ebs))"
    and t: "\<forall>e. o1 \<noteq> Threw e"
    and res: "\<forall>results. o1 = Resolved results \<longrightarrow> map file_content results = map (entry_file ?F f) entries"
    and rej: "\<forall>e. o1 = Rejected e \<longrightarrow> (\<exists>x \<in> set entries. snd (entry_file ?F f x) = Inl e)"
    by simp_all
  show ?thesis
  proof (cases o1)
    case (Threw e)
    with t show ?thesis by simp
  next
    case (Rejected e)
    with run rb have "loadAllCSFFiles n s = Some (Rejected e, s')" by simp
    with fr m f l rej Rejected show ?thesis by simp
  next
    case (Resolved list)
    let ?m = "fold (\<lambda>(path, csfFile) acc. AList.update path csfFile acc) list []"
    from run rb Resolved have r: "loadAllCSFFiles n s = Some (Resolved ?m, s')" by simp
    from res Resolved have "map file_content list = map (entry_file ?F f) entries" by simp
    moreover have "map file_content ?m =
        fold (\<lambda>(path, r) acc. AList.update path r acc) (map file_content list) []"
      unfolding file_content_def using fold_update_map[of "\<lambda>c. Inr (snd c)" list "[]"] by simp
    ultimately have "map file_content ?m = loaded_files ?F f entries"
      by (simp add: loaded_files_def)
    with r fr m f l show ?thesis by simp
  qed
qed


lemma memo_call_keys:
  "fst ` set (lru (snd (memo_call m k))) \<subseteq> insert k (fst ` set (lru m))"
proof (cases "map_of (lru m) k")
  case (Some v)
  show ?thesis unfolding memo_call_hit[OF Some] by auto
next
  case None
  show ?thesis
  proof (cases "fn m k")
    case (Inl e)
    show ?thesis unfolding memo_call_fail[OF None Inl] by auto
  next
    case (Inr c)
    have "set (take (limit m) ((k, (computed m, c)) # lru m)) \<subseteq> set ((k, (computed m, c)) # lru m)"
      by (rule set_take_subset)
    then show ?thesis unfolding memo_call_miss[OF None Inr] by auto
  qed
qed

lemma settle_load_keys:
  "fst ` set (lru (processCSFFileWithCache (snd (settle_load s l)))) \<subseteq>
   fst ` set (lru (processCSFFileWithCache s)) \<union>
     (case loaded l of Inl e \<Rightarrow> {} | Inr moduleExports \<Rightarrow> {(moduleExports, load_path l, load_title l)})"
proof (cases "loaded l")
  case (Inl e)
  then show ?thesis by (simp add: settle_load_def)
next
  case (Inr m)
  with memo_call_keys[of "processCSFFileWithCache s" "(m, load_path l, load_title l)"]
  show ?thesis by (auto simp: settle_load_def Let_def)
qed

lemma settle_all_keys:
  assumes "\<forall>(i, path, l) \<in> set ls. \<exists>x \<in> set es. l = load_of f (snd x)"
  shows "fst ` set (lru (processCSFFileWithCache (snd (settle_all s ls)))) \<subseteq>
         fst ` set (lru (processCSFFileWithCache s)) \<union> loaded_keys f es"
  using assms
proof (induction ls arbitrary: s)
  case Nil
  show ?case by simp
next
  case (Cons x ls)
  obtain i path l where x: "x = (i, path, l)" by (cases x)
  from Cons.prems x obtain y where y: "y \<in> set es" "l = load_of f (snd y)" by auto
  have one: "(case loaded l of Inl e \<Rightarrow> {} | Inr moduleExports \<Rightarrow> {(moduleExports, load_path l, load_title l)})
      \<subseteq> loaded_keys f es"
  proof (cases "loaded l")
    case (Inl e)
    then show ?thesis by simp
  next
    case (Inr m)
    obtain sid entry where y': "y = (sid, entry)" by (cases y)
    from y y' Inr have "(sid, entry) \<in> set es" "snd (f (importPath entry)) = Inr m"
      "load_path l = importPath entry" "load_title l = title entry"
      by (simp_all add: load_of_def)
    then have "(m, load_path l, load_title l) \<in> loaded_keys f es"
      unfolding loaded_keys_def by blast
    with Inr show ?thesis by simp
  qed
  from Cons.prems have "\<forall>(i, path, l) \<in> set ls. \<exists>x \<in> set es. l = load_of f (snd x)" by simp
  from Cons.IH[OF this, of "snd (settle_load s l)"] settle_load_keys[of s l] one x
  show ?case by (auto simp: split_beta)
qed

lemma loadBatch_keys:
  assumes "storyIndex s = Some entries" "importFn s = Some f"
    and "\<forall>(storyId, entry) \<in> set es. map_of entries storyId = Some entry"
  shows "fst ` set (lru (processCSFFileWithCache (snd (loadBatch s (entry_items es))))) \<subseteq>
         fst ` set (lru (processCSFFileWithCache s)) \<union> loaded_keys f es"
proof -
  let ?started = "map (\<lambda>(storyId, entry). (importPath entry, load_of f entry)) es"
  let ?s1 = "s\<lparr>loads := loads s @ map Called (entry_paths es)\<rparr>"
  note st = start_all_ok[OF assms]
  have lb: "snd (loadBatch s (entry_items es)) = snd (settle_all ?s1 (completion_order ?started))"
    by (simp add: loadBatch_def st split_beta)
  have "\<forall>(i, path, l) \<in> set (completion_order ?started). \<exists>x \<in> set es. l = load_of f (snd x)"
  proof (clarify)
    fix i path l assume "(i, path, l) \<in> set (completion_order ?started)"
    then have "(i, path, l) \<in> set (zip [0..<length ?started] ?started)"
      by (simp add: completion_order_def)
    then have "(path, l) \<in> set ?started" by (rule set_zip_rightD)
    then show "\<exists>x \<in> set es. l = load_of f (snd x)" by (auto simp: split_beta)
  qed
  from settle_all_keys[OF this, of ?s1] show ?thesis unfolding lb by simp
qed

lemma loaded_keys_mono: "set es \<subseteq> set es' \<Longrightarrow> loaded_keys f es \<subseteq> loaded_keys f es'"
  unfolding loaded_keys_def by blast

lemma run_batches_keys:
  assumes "storyIndex s = Some entries" "importFn s = Some f"
    and "\<forall>es \<in> set ebs. \<forall>(storyId, entry) \<in> set es. map_of entries storyId = Some entry"
  shows "fst ` set (lru (processCSFFileWithCache (snd (run_batches s (map entry_items ebs))))) \<subseteq>
         fst ` set (lru (processCSFFileWithCache s)) \<union> loaded_keys f (concat ebs)"
  using assms
proof (induction ebs arbitrary: s)
  case Nil
  show ?case by simp
next
  case (Cons es ebs)
  obtain o1 s1 where b: "loadBatch s (entry_items es) = (o1, s1)"
    by (cases "loadBatch s (entry_items es)")
  from Cons.prems(3) have es: "\<forall>(storyId, entry) \<in> set es. map_of entries storyId = Some entry"
    and ebs: "\<forall>es \<in> set ebs. \<forall>(storyId, entry) \<in> set es. map_of entries storyId = Some entry"
    by simp_all
  from loadBatch_keys[OF Cons.prems(1,2) es] b
  have k1: "fst ` set (lru (processCSFFileWithCache s1)) \<subseteq>
      fst ` set (lru (processCSFFileWithCache s)) \<union> loaded_keys f es" by simp
  have m1: "loaded_keys f es \<subseteq> loaded_keys f (concat (es # ebs))" by (rule loaded_keys_mono) simp
  have m2: "loaded_keys f (concat ebs) \<subseteq> loaded_keys f (concat (es # ebs))"
    by (rule loaded_keys_mono) simp
  from loadBatch_frame[of s "entry_items es"] b have fr: "same_but_loading s s1" by simp
  from same_but_loadingD(1,2)[OF fr] Cons.prems(1,2)
  have i1: "storyIndex s1 = Some entries" "importFn s1 = Some f" by simp_all
  note ih = Cons.IH[OF i1 ebs]
  have "snd (run_batches s (map entry_items (es # ebs))) = s1 \<or>
        snd (run_batches s (map entry_items (es # ebs))) = snd (run_batches s1 (map entry_items ebs))"
    using b by (cases o1) (simp_all add: split_beta split: outcome.splits)
  then show ?case
  proof
    assume e: "snd (run_batches s (map entry_items (es # ebs))) = s1"
    from k1 m1 have "fst ` set (lru (processCSFFileWithCache s1)) \<subseteq>
        fst ` set (lru (processCSFFileWithCache s)) \<union> loaded_keys f (concat (es # ebs))" by blast
    then show ?thesis by (simp only: e)
  next
    assume e: "snd (run_batches s (map entry_items (es # ebs))) = snd (run_batches s1 (map entry_items ebs))"
    from ih k1 m1 m2 have
      "fst ` set (lru (processCSFFileWithCache (snd (run_batches s1 (map entry_items ebs))))) \<subseteq>
        fst ` set (lru (processCSFFileWithCache s)) \<union> loaded_keys f (concat (es # ebs))" by blast
    then show ?thesis by (simp only: e)
  qed
qed

lemma loadAllCSFFiles_keys:
  assumes idx: "storyIndex s = Some entries" and imp: "importFn s = Some f"
    and dist: "distinct (map fst entries)" and n: "0 < n"
    and l: "loadAllCSFFiles n s = Some (r, s')"
  shows "fst ` set (lru (processCSFFileWithCache s')) \<subseteq>
         fst ` set (lru (processCSFFileWithCache s)) \<union> loaded_keys f entries"
proof -
  let ?ebs = "chunks n entries"
  have cc: "concat ?ebs = entries" using n by (rule concat_chunks)
  have es: "\<forall>es \<in> set ?ebs. \<forall>(storyId, entry) \<in> set es. map_of entries storyId = Some entry"
  proof (intro ballI, clarify)
    fix es storyId entry
    assume "es \<in> set ?ebs" "(storyId, entry) \<in> set es"
    then have "(storyId, entry) \<in> set (concat ?ebs)" by auto
    with cc have "(storyId, entry) \<in> set entries" by simp
    with dist show "map_of entries storyId = Some entry" by simp
  qed
  from loadAllCSFFiles_run[OF idx n] l
  have "s' = snd (run_batches s (map entry_items ?ebs))" by simp
  with run_batches_keys[OF idx imp es] cc show ?thesis by simp
qed

lemma chunks_length: "es \<in> set (chunks n xs) \<Longrightarrow> es \<noteq> [] \<and> length es \<le> n"
proof (induction n xs rule: chunks.induct)
  case (1 n xs)
  show ?case
  proof (cases "n = 0 \<or> xs = []")
    case True
    with 1(2) show ?thesis by (simp add: chunks.simps)
  next
    case False
    with 1(2) have "es = take n xs \<or> es \<in> set (chunks n (drop n xs))"
      by (subst (asm) chunks.simps) simp
    with 1(1) False show ?thesis by auto
  qed
qed

lemma loadAllCSFFiles_resolved_ok:
  assumes idx: "storyIndex s = Some entries" and imp: "importFn s = Some f"
    and dist: "distinct (map fst entries)"
    and mc: "memo_consistent (processCSFFileWithCache s)" and n: "0 < n"
    and l: "loadAllCSFFiles n s = Some (Resolved m, s')"
  shows "\<forall>x \<in> set entries. \<not> isl (snd (entry_file (fn (processCSFFileWithCache s)) f x))"
proof -
  let ?F = "fn (processCSFFileWithCache s)"
  let ?ebs = "chunks n entries"
  have cc: "concat ?ebs = entries" using n by (rule concat_chunks)
  have es: "\<forall>es \<in> set ?ebs. \<forall>(storyId, entry) \<in> set es. map_of entries storyId = Some entry"
  proof (intro ballI, clarify)
    fix es storyId entry
    assume "es \<in> set ?ebs" "(storyId, entry) \<in> set es"
    then have "(storyId, entry) \<in> set (concat ?ebs)" by auto
    with cc have "(storyId, entry) \<in> set entries" by simp
    with dist show "map_of entries storyId = Some entry" by simp
  qed
  note sp = run_batches_spec[OF idx imp es mc, unfolded cc]
  from loadAllCSFFiles_run[OF idx n] l obtain list where
    "fst (run_batches s (map entry_items ?ebs)) = Resolved list"
    by (cases "fst (run_batches s (map entry_items ?ebs))") auto
  with sp have "map file_content list = map (entry_file ?F f) entries" by simp
  from resolved_ok_batch[OF this] show ?thesis by (simp add: ok_batch_iff)
qed

lemma loaded_files_keys: "map fst (loaded_files F f entries) = first_occurrences (entry_paths entries)"
proof -
  have "map fst (map (entry_file F f) entries) = entry_paths entries"
    by (simp add: entry_file_def entry_paths_def split_beta comp_def)
  with keys_fold_update[of "map (entry_file F f) entries" "[]"] show ?thesis
    by (simp add: loaded_files_def)
qed

lemma file_content_keys: "map fst (map file_content m) = map fst m"
  by (simp add: file_content_def split_beta comp_def)

lemma loadAllCSFFiles_fails:
  assumes "storyIndex s = Some entries" and "importFn s = Some f"
    and "distinct (map fst entries)"
    and "memo_consistent (processCSFFileWithCache s)" and "0 < n"
    and "x \<in> set entries" and "isl (snd (entry_file (fn (processCSFFileWithCache s)) f x))"
  shows "\<exists>e s'. loadAllCSFFiles n s = Some (Rejected e, s') \<and> same_but_loading s s' \<and>
           (\<exists>y \<in> set entries. snd (entry_file (fn (processCSFFileWithCache s)) f y) = Inl e)"
proof -
  let ?F = "fn (processCSFFileWithCache s)"
  from loadAllCSFFiles_spec[OF assms(1-5)] obtain r s' where l: "loadAllCSFFiles n s = Some (r, s')"
    and fr: "same_but_loading s s'"
    and nt: "\<forall>e. r \<noteq> Threw e"
    and rej: "\<forall>e. r = Rejected e \<longrightarrow> (\<exists>y \<in> set entries. snd (entry_file ?F f y) = Inl e)"
    by blast
  have "\<exists>e. r = Rejected e"
  proof (cases r)
    case (Resolved m)
    with loadAllCSFFiles_resolved_ok[OF assms(1-5)] l assms(6,7) show ?thesis by blast
  next
    case (Threw e)
    with nt show ?thesis by simp
  qed simp
  then obtain e where r: "r = Rejected e" ..
  show ?thesis
    by (rule exI[of _ e], rule exI[of _ s']) (use l r fr rej in blast)
qed

lemma load_entry:
  assumes "storyIndex s = Some entries" "importFn s = Some f" "map_of entries storyId = Some entry"
    and "memo_consistent (processCSFFileWithCache s)"
  shows "(\<forall>e. snd (entry_file (fn (processCSFFileWithCache s)) f (storyId, entry)) = Inl e \<longrightarrow>
            fst (loadCSFFileByStoryId s storyId) = Rejected e) \<and>
         (\<forall>csf. fst (loadCSFFileByStoryId s storyId) = Resolved csf \<longrightarrow>
            snd (entry_file (fn (processCSFFileWithCache s)) f (storyId, entry)) = Inr (snd csf)) \<and>
         (\<forall>e. fst (loadCSFFileByStoryId s storyId) \<noteq> Threw e)"
proof -
  let ?s1 = "s\<lparr>loads := loads s @ [Called (importPath entry)]\<rparr>"
  from assms(1-3) have st: "start_load s storyId = Inr (load_of f entry, ?s1)"
    by (simp add: start_load_def StoryIndexStore_storyIdToEntry_def load_of_def)
  from assms(4) have mc: "memo_consistent (processCSFFileWithCache ?s1)" by simp
  from settle_load_pure(1)[OF mc, of "load_of f entry"]
  have p: "map_sum id snd (fst (settle_load ?s1 (load_of f entry))) =
      load_result (fn (processCSFFileWithCache s)) (load_of f entry)" by simp
  show ?thesis
  proof (cases "fst (settle_load ?s1 (load_of f entry))")
    case (Inl e)
    with p st show ?thesis
      by (auto simp: loadCSFFileByStoryId_def entry_file_def split_beta)
  next
    case (Inr c)
    with p st show ?thesis
      by (auto simp: loadCSFFileByStoryId_def entry_file_def split_beta)
  qed
qed

lemma ex_cached_csf_cache:
  "fn (processCSFFileWithCache ex_cached) = (\<lambda>(moduleExports, path, t). ex_processCSFFile moduleExports path t)"
  "lru (processCSFFileWithCache ex_cached) =
     [((ex_button, ''./Button.stories.js'', ''Button''), 2, ex_button_file),
      ((ex_intro, ''./Intro.mdx'', ''Intro''), 1, ex_intro_file),
      ((ex_input, ''./Input.stories.js'', ''Input''), 0, ex_input_file)]"
  by (simp_all add: ex_defs store_defs load_defs gate_defs)

lemma ex_cached_csf_consistent: "memo_consistent (processCSFFileWithCache ex_cached)"
  by (simp add: memo_consistent_def ex_cached_csf_cache ex_processCSFFile_def ex_button_def
        ex_intro_def ex_input_def ex_button_file_def ex_intro_file_def ex_input_file_def)




lemma ex_initialized_fields:
  "storyIndex ex_initialized = Some ex_index" "importFn ex_initialized = Some ex_importFn"
  "cachedCSFFiles ex_initialized = None" "initialized ex_initialized"
  "lru (processCSFFileWithCache ex_initialized) = []"
  "fn (processCSFFileWithCache ex_initialized) = (\<lambda>(moduleExports, path, t). ex_processCSFFile moduleExports path t)"
  "loads ex_initialized = []"
  by (simp_all add: ex_defs store_defs gate_defs)

lemma ex_failing_fields:
  "storyIndex ex_failing = Some ex_index" "importFn ex_failing = Some ex_failing_importFn"
  "cachedCSFFiles ex_failing = None" "initialized ex_failing"
  "lru (processCSFFileWithCache ex_failing) = []"
  "fn (processCSFFileWithCache ex_failing) = (\<lambda>(moduleExports, path, t). ex_processCSFFile moduleExports path t)"
  "loads ex_failing = []"
  by (simp_all add: ex_failing_def ex_initialized_fields)

lemma ex_chunks: "chunks 2 ex_index =
    [[(''Button--Primary'', \<lparr>entry_type = story, importPath = ''./Button.stories.js'', title = ''Button''\<rparr>),
      (''Button--Docs'', \<lparr>entry_type = story, importPath = ''./Button.stories.js'', title = ''Button''\<rparr>)],
     [(''Input--Basic'', \<lparr>entry_type = story, importPath = ''./Input.stories.js'', title = ''Input''\<rparr>),
      (''Intro--docs'', \<lparr>entry_type = docs, importPath = ''./Intro.mdx'', title = ''Intro''\<rparr>)]]"
  by (simp add: ex_index_def chunks_Cons)

lemma ex_batches_eval:
  "map_option (\<lambda>(r, s'). (r, loads s')) (loadAllCSFFiles 2 ex_initialized) =
     Some (Resolved [(''./Button.stories.js'', 0, ex_button_file), (''./Input.stories.js'', 1, ex_input_file),
                     (''./Intro.mdx'', 2, ex_intro_file)],
           [Called ''./Button.stories.js'', Called ''./Button.stories.js'',
            Settled ''./Button.stories.js'', Settled ''./Button.stories.js'',
            Called ''./Input.stories.js'', Called ''./Intro.mdx'',
            Settled ''./Input.stories.js'', Settled ''./Intro.mdx''])"
  by (simp add: ex_defs store_defs load_defs gate_defs)

lemma ex_failing_eval20:
  "map_option (\<lambda>(r, s'). (r, loads s')) (loadAllCSFFiles 20 ex_failing) =
     Some (Rejected (Error ''Loading chunk failed''),
           [Called ''./Button.stories.js'', Called ''./Button.stories.js'',
            Called ''./Input.stories.js'', Called ''./Intro.mdx'',
            Settled ''./Input.stories.js'', Settled ''./Intro.mdx'',
            Settled ''./Button.stories.js'', Settled ''./Button.stories.js''])"
  by (simp add: ex_failing_def ex_defs store_defs load_defs gate_defs)

lemma ex_failing_eval1:
  "map_option (\<lambda>(r, s'). (r, loads s')) (loadAllCSFFiles 1 ex_failing) =
     Some (Rejected (Error ''Loading chunk failed''),
           [Called ''./Button.stories.js'', Settled ''./Button.stories.js'',
            Called ''./Button.stories.js'', Settled ''./Button.stories.js'',
            Called ''./Input.stories.js'', Settled ''./Input.stories.js''])"
  by (simp add: ex_failing_def ex_defs store_defs load_defs gate_defs)

lemma ex_started_2:
  "concat (map (\<lambda>es. batch_events ex_importFn (entry_paths es))
     (started_batches (\<lambda>(moduleExports, path, t). ex_processCSFFile moduleExports path t) ex_importFn
        (chunks 2 ex_index))) =
   [Called ''./Button.stories.js'', Called ''./Button.stories.js'',
    Settled ''./Button.stories.js'', Settled ''./Button.stories.js'',
    Called ''./Input.stories.js'', Called ''./Intro.mdx'',
    Settled ''./Input.stories.js'', Settled ''./Intro.mdx'']"
  unfolding ex_chunks
  by (simp add: started_batches_def ok_batch_def entry_file_def load_result_def load_of_def
      batch_events_def entry_paths_def ex_importFn_def ex_processCSFFile_def ex_button_def
      ex_input_def ex_intro_def)

lemma ex_started_failing:
  "concat (map (\<lambda>es. batch_events ex_failing_importFn (entry_paths es))
     (started_batches (\<lambda>(moduleExports, path, t). ex_processCSFFile moduleExports path t) ex_failing_importFn
        (chunks 2 ex_index))) =
   [Called ''./Button.stories.js'', Called ''./Button.stories.js'',
    Settled ''./Button.stories.js'', Settled ''./Button.stories.js'',
    Called ''./Input.stories.js'', Called ''./Intro.mdx'',
    Settled ''./Input.stories.js'', Settled ''./Intro.mdx'']"
  unfolding ex_chunks
  by (simp add: started_batches_def ok_batch_def entry_file_def load_result_def load_of_def
      batch_events_def entry_paths_def ex_importFn_def ex_failing_importFn_def ex_processCSFFile_def
      ex_button_def ex_input_def ex_intro_def)

lemma ex_initialized_consistent: "memo_consistent (processCSFFileWithCache ex_initialized)"
  by (simp add: memo_consistent_def ex_initialized_fields)

lemma ex_failing_consistent: "memo_consistent (processCSFFileWithCache ex_failing)"
  by (simp add: memo_consistent_def ex_failing_fields)

lemma ex_failing_prepare_consistent: "memo_consistent (prepareStoryWithCache ex_failing)"
  by (simp add: memo_consistent_def ex_failing_def ex_defs store_defs gate_defs)

lemma ex_intro_prepare:
  "prepare_pure (fn (prepareStoryWithCache ex_cached)) (projectAnnotations ex_cached) ''Intro--docs''
     (map_of ex_cached_files ''./Intro.mdx'') =
   Inl (Error (''Didn't find '' @ [CHR 0x27] @ ''Intro--docs'' @ [CHR 0x27] @
               '' in CSF file, this is unexpected''))"
  by (simp add: prepare_pure_def ex_cached_fields ex_cached_files_def ex_intro_file_def)

section \<open>Extraction needs the cached files\<close>

text \<open>
  Claim C7. \<^verbatim>\<open>extract\<close> throws "extract called before initialization" when the store
  has no index yet. With an index but before any \<^verbatim>\<open>cacheAllCSFFiles\<close> has stored its
  result (\<^verbatim>\<open>cachedCSFFiles\<close> is unset, as in a new store that was initialized without
  caching), it throws "Cannot call extract() unless you call cacheAllCSFFiles() first."
  The two errors are distinct, and a \<^verbatim>\<open>cacheAllCSFFiles\<close> that resolves leaves
  \<^verbatim>\<open>cachedCSFFiles\<close> set.
\<close>

theorem extract_requires_cached_files:
  "(storyIndex s = None \<longrightarrow>
      extractStories includeDocsOnly s = (Inl (Error ''extract called before initialization''), s)) \<and>
   (storyIndex s \<noteq> None \<and> cachedCSFFiles s = None \<longrightarrow>
      extractStories includeDocsOnly s =
        (Inl (Error ''Cannot call extract() unless you call cacheAllCSFFiles() first.''), s)) \<and>
   (\<forall>r s'. initialize i f False (StoryStore_new pc ps) = Some (r, s') \<longrightarrow>
      fst (extractStories includeDocsOnly s') =
        Inl (Error ''Cannot call extract() unless you call cacheAllCSFFiles() first.'')) \<and>
   (\<forall>s'. cacheAllCSFFiles_body s = Some (Resolved RVoid, s') \<longrightarrow> cachedCSFFiles s' \<noteq> None) \<and>
   Error ''Cannot call extract() unless you call cacheAllCSFFiles() first.''
     \<noteq> Error ''extract called before initialization''"
  by (auto simp: extractStories_def cacheAllCSFFiles_body_def initialize_def
        resolveInitializationPromise_def StoryStore_new_def
        split: option.splits Option.bind_splits outcome.splits prod.splits)

theorem extract_requires_cached_files_witness:
  "storyIndex ex_store = None \<and>
   fst (extractStories False ex_store) = Inl (Error ''extract called before initialization'') \<and>
   storyIndex ex_initialized \<noteq> None \<and> cachedCSFFiles ex_initialized = None \<and>
   fst (extractStories False ex_initialized) =
     Inl (Error ''Cannot call extract() unless you call cacheAllCSFFiles() first.'') \<and>
   (\<exists>s'. cacheAllCSFFiles_body ex_initialized = Some (Resolved RVoid, s') \<and> cachedCSFFiles s' \<noteq> None)"
proof -
  have a: "storyIndex ex_store = None" by (simp add: ex_defs store_defs)
  have b: "storyIndex ex_initialized \<noteq> None \<and> cachedCSFFiles ex_initialized = None"
    by (simp add: ex_defs store_defs gate_defs)
  have "map_option fst (cacheAllCSFFiles_body ex_initialized) = Some (Resolved RVoid)"
    by (simp add: ex_defs store_defs load_defs gate_defs)
  then obtain s' where c: "cacheAllCSFFiles_body ex_initialized = Some (Resolved RVoid, s')"
    by auto
  from extract_requires_cached_files[of ex_store False] a
  have 1: "fst (extractStories False ex_store) = Inl (Error ''extract called before initialization'')"
    by simp
  from extract_requires_cached_files[of ex_initialized False] b c
  have 2: "fst (extractStories False ex_initialized) =
     Inl (Error ''Cannot call extract() unless you call cacheAllCSFFiles() first.'')"
    and 3: "cachedCSFFiles s' \<noteq> None"
    by simp_all
  from a b c 1 2 3 show ?thesis by blast
qed

section \<open>Failures surface as errors\<close>

text \<open>
  Claim C6, as amended. For the operations \<^verbatim>\<open>loadCSFFileByStoryId\<close>, \<^verbatim>\<open>loadStory\<close>,
  \<^verbatim>\<open>storyIdToEntry\<close>, \<^verbatim>\<open>loadAllCSFFiles\<close>, \<^verbatim>\<open>cacheAllCSFFiles\<close>, \<^verbatim>\<open>storyFromCSFFile\<close>,
  \<^verbatim>\<open>extract\<close> and \<^verbatim>\<open>fromId\<close>, every failure surfaces as a thrown error or a rejected
  promise, with one exception: \<^verbatim>\<open>fromId\<close> returns \<^verbatim>\<open>null\<close> for an identifier that is
  absent from the index.

  The failures are: the index, the loader, the cached files or the project annotations
  are not set; the identifier is absent from the index; the file of an entry fails to
  load or to be processed (\<open>entry_file\<close> gives an error); the story cannot be prepared
  from its file (\<open>prepare_pure\<close> gives an error: the file is absent from the cached
  files, the story is absent from the file, or \<^verbatim>\<open>prepareStory\<close> fails); and the
  parameters of a prepared story cannot be read. In each case the operation throws or
  rejects, with the error of the failure where the statement names it, and for the
  operations over all entries (\<^verbatim>\<open>loadAllCSFFiles\<close>, \<^verbatim>\<open>cacheAllCSFFiles\<close>, \<^verbatim>\<open>extract\<close>) with
  the error of one of the failing entries. \<^verbatim>\<open>fromId\<close> returns \<^verbatim>\<open>null\<close> only for an
  identifier that is absent from the index. The two caches hold only results of their
  functions, and the identifiers of the index are distinct.
\<close>

theorem failures_surface:
  "(storyIndex s = None \<or> importFn s = None \<longrightarrow>
      loadCSFFileByStoryId s storyId =
        (Threw (Error ''loadCSFFileByStoryId called before initialization''), s) \<and>
      (initialized s \<longrightarrow>
         loadStory s storyId =
           Some (Some (Rejected (Error ''loadCSFFileByStoryId called before initialization'')), s))) \<and>
   (storyIndex s = None \<longrightarrow>
      loadAllCSFFiles batchSize s = Some (Threw (Error ''loadAllCSFFiles called before initialization''), s) \<and>
      extractStories b s = (Inl (Error ''extract called before initialization''), s) \<and>
      fromId s storyId = (Inl (Error ''fromId called before initialization''), s)) \<and>
   (storyIndex s \<noteq> None \<and> cachedCSFFiles s = None \<longrightarrow>
      extractStories b s =
        (Inl (Error ''Cannot call extract() unless you call cacheAllCSFFiles() first.''), s) \<and>
      fromId s storyId =
        (Inl (Error ''Cannot call fromId/raw() unless you call cacheAllCSFFiles() first.''), s)) \<and>
   (projectAnnotations s = None \<longrightarrow>
      storyFromCSFFile s storyId csfFile =
        (Inl (Error ''storyFromCSFFile called before initialization''), s)) \<and>
   (storyIndex s = Some entries \<and> importFn s = Some f \<and> distinct (map fst entries) \<and>
    memo_consistent (processCSFFileWithCache s) \<and> memo_consistent (prepareStoryWithCache s) \<longrightarrow>
      (map_of entries storyId = None \<longrightarrow>
         loadCSFFileByStoryId s storyId = (Threw (NotFound storyId), s) \<and>
         (initialized s \<longrightarrow>
            storyIdToEntry s storyId = Some (Some (Rejected (NotFound storyId)), s) \<and>
            loadStory s storyId = Some (Some (Rejected (NotFound storyId)), s)) \<and>
         (cachedCSFFiles s \<noteq> None \<longrightarrow> fromId s storyId = (Inr None, s))) \<and>
      (\<forall>entry e.
         map_of entries storyId = Some entry \<and>
         snd (entry_file (fn (processCSFFileWithCache s)) f (storyId, entry)) = Inl e \<longrightarrow>
           fst (loadCSFFileByStoryId s storyId) = Rejected e \<and>
           (initialized s \<longrightarrow> map_option fst (loadStory s storyId) = Some (Some (Rejected e)))) \<and>
      (\<forall>e. prepare_pure (fn (prepareStoryWithCache s)) (projectAnnotations s) storyId csfFile = Inl e \<longrightarrow>
           fst (storyFromCSFFile s storyId csfFile) = Inl e) \<and>
      (\<forall>loadedFile e.
         initialized s \<and> fst (loadCSFFileByStoryId s storyId) = Resolved loadedFile \<and>
         prepare_pure (fn (prepareStoryWithCache s)) (projectAnnotations s) storyId (Some loadedFile) = Inl e \<longrightarrow>
           map_option fst (loadStory s storyId) = Some (Some (Rejected e))) \<and>
      ((\<exists>x \<in> set entries. isl (snd (entry_file (fn (processCSFFileWithCache s)) f x))) \<and> 0 < batchSize \<longrightarrow>
         (\<exists>e s'. loadAllCSFFiles batchSize s = Some (Rejected e, s') \<and>
            (\<exists>y \<in> set entries. snd (entry_file (fn (processCSFFileWithCache s)) f y) = Inl e)) \<and>
         (initialized s \<longrightarrow>
            (\<exists>e s'. cacheAllCSFFiles s = Some (Some (Rejected e), s') \<and>
               cachedCSFFiles s' = cachedCSFFiles s \<and>
               (\<exists>y \<in> set entries. snd (entry_file (fn (processCSFFileWithCache s)) f y) = Inl e)))) \<and>
      (\<forall>cached entry e.
         cachedCSFFiles s = Some cached \<and> map_of entries storyId = Some entry \<and>
         prepare_pure (fn (prepareStoryWithCache s)) (projectAnnotations s) storyId
           (map_of cached (importPath entry)) = Inl e \<longrightarrow>
           fst (fromId s storyId) = Inl e \<and>
           (entry_type entry = story \<longrightarrow> isl (fst (extractStories b s)))) \<and>
      (\<forall>cached entry st e.
         cachedCSFFiles s = Some cached \<and> map_of entries storyId = Some entry \<and>
         entry_type entry = story \<and>
         prepare_pure (fn (prepareStoryWithCache s)) (projectAnnotations s) storyId
           (map_of cached (importPath entry)) = Inr st \<and>
         get_member (get_prop st ''parameters'') ''docsOnly'' = Inl e \<longrightarrow>
           isl (fst (extractStories False s))) \<and>
      (fst (fromId s storyId) = Inr None \<longrightarrow> map_of entries storyId = None))"
proof -
  let ?F = "fn (processCSFFileWithCache s)"
  let ?P = "fn (prepareStoryWithCache s)"
  let ?pa = "projectAnnotations s"
  have G1: "loadCSFFileByStoryId s storyId =
        (Threw (Error ''loadCSFFileByStoryId called before initialization''), s) \<and>
      (initialized s \<longrightarrow>
         loadStory s storyId =
           Some (Some (Rejected (Error ''loadCSFFileByStoryId called before initialization'')), s))"
    if "storyIndex s = None \<or> importFn s = None"
    using that
    by (auto simp: loadCSFFileByStoryId_def start_load_def loadStory_def gate_def run_gated_def
        split: option.splits)
  have G2: "loadAllCSFFiles batchSize s = Some (Threw (Error ''loadAllCSFFiles called before initialization''), s) \<and>
      extractStories b s = (Inl (Error ''extract called before initialization''), s) \<and>
      fromId s storyId = (Inl (Error ''fromId called before initialization''), s)"
    if "storyIndex s = None"
    using that by (simp add: loadAllCSFFiles_def extractStories_def fromId_def)
  have G3: "extractStories b s =
        (Inl (Error ''Cannot call extract() unless you call cacheAllCSFFiles() first.''), s) \<and>
      fromId s storyId =
        (Inl (Error ''Cannot call fromId/raw() unless you call cacheAllCSFFiles() first.''), s)"
    if "storyIndex s \<noteq> None \<and> cachedCSFFiles s = None"
    using that by (auto simp: extractStories_def fromId_def)
  have G4: "storyFromCSFFile s storyId csfFile =
        (Inl (Error ''storyFromCSFFile called before initialization''), s)"
    if "projectAnnotations s = None"
    using that by (simp add: storyFromCSFFile_def)
  have H: "(map_of entries storyId = None \<longrightarrow>
         loadCSFFileByStoryId s storyId = (Threw (NotFound storyId), s) \<and>
         (initialized s \<longrightarrow>
            storyIdToEntry s storyId = Some (Some (Rejected (NotFound storyId)), s) \<and>
            loadStory s storyId = Some (Some (Rejected (NotFound storyId)), s)) \<and>
         (cachedCSFFiles s \<noteq> None \<longrightarrow> fromId s storyId = (Inr None, s))) \<and>
      (\<forall>entry e.
         map_of entries storyId = Some entry \<and> snd (entry_file ?F f (storyId, entry)) = Inl e \<longrightarrow>
           fst (loadCSFFileByStoryId s storyId) = Rejected e \<and>
           (initialized s \<longrightarrow> map_option fst (loadStory s storyId) = Some (Some (Rejected e)))) \<and>
      (\<forall>e. prepare_pure ?P ?pa storyId csfFile = Inl e \<longrightarrow>
           fst (storyFromCSFFile s storyId csfFile) = Inl e) \<and>
      (\<forall>loadedFile e.
         initialized s \<and> fst (loadCSFFileByStoryId s storyId) = Resolved loadedFile \<and>
         prepare_pure ?P ?pa storyId (Some loadedFile) = Inl e \<longrightarrow>
           map_option fst (loadStory s storyId) = Some (Some (Rejected e))) \<and>
      ((\<exists>x \<in> set entries. isl (snd (entry_file ?F f x))) \<and> 0 < batchSize \<longrightarrow>
         (\<exists>e s'. loadAllCSFFiles batchSize s = Some (Rejected e, s') \<and>
            (\<exists>y \<in> set entries. snd (entry_file ?F f y) = Inl e)) \<and>
         (initialized s \<longrightarrow>
            (\<exists>e s'. cacheAllCSFFiles s = Some (Some (Rejected e), s') \<and>
               cachedCSFFiles s' = cachedCSFFiles s \<and>
               (\<exists>y \<in> set entries. snd (entry_file ?F f y) = Inl e)))) \<and>
      (\<forall>cached entry e.
         cachedCSFFiles s = Some cached \<and> map_of entries storyId = Some entry \<and>
         prepare_pure ?P ?pa storyId (map_of cached (importPath entry)) = Inl e \<longrightarrow>
           fst (fromId s storyId) = Inl e \<and>
           (entry_type entry = story \<longrightarrow> isl (fst (extractStories b s)))) \<and>
      (\<forall>cached entry st e.
         cachedCSFFiles s = Some cached \<and> map_of entries storyId = Some entry \<and>
         entry_type entry = story \<and>
         prepare_pure ?P ?pa storyId (map_of cached (importPath entry)) = Inr st \<and>
         get_member (get_prop st ''parameters'') ''docsOnly'' = Inl e \<longrightarrow>
           isl (fst (extractStories False s))) \<and>
      (fst (fromId s storyId) = Inr None \<longrightarrow> map_of entries storyId = None)"
    if h: "storyIndex s = Some entries \<and> importFn s = Some f \<and> distinct (map fst entries) \<and>
      memo_consistent (processCSFFileWithCache s) \<and> memo_consistent (prepareStoryWithCache s)"
  proof -
    from h have idx: "storyIndex s = Some entries" and imp: "importFn s = Some f"
      and dist: "distinct (map fst entries)"
      and mc: "memo_consistent (processCSFFileWithCache s)"
      and mp: "memo_consistent (prepareStoryWithCache s)" by simp_all
    have U: "loadCSFFileByStoryId s storyId = (Threw (NotFound storyId), s) \<and>
         (initialized s \<longrightarrow>
            storyIdToEntry s storyId = Some (Some (Rejected (NotFound storyId)), s) \<and>
            loadStory s storyId = Some (Some (Rejected (NotFound storyId)), s)) \<and>
         (cachedCSFFiles s \<noteq> None \<longrightarrow> fromId s storyId = (Inr None, s))"
      if "map_of entries storyId = None"
      using that idx imp
      by (auto simp: fromId_def loadCSFFileByStoryId_def start_load_def StoryIndexStore_storyIdToEntry_def
          storyIdToEntry_def loadStory_def gate_def run_gated_def)
    have prep: "fst (storyFromCSFFile s storyId c) = Inl e"
      if "prepare_pure ?P ?pa storyId c = Inl e" for c e
      using storyFromCSFFile_pure(1)[OF mp, of storyId c] that
      by (cases "fst (storyFromCSFFile s storyId c)") auto
    have L: "fst (loadCSFFileByStoryId s storyId) = Rejected e \<and>
           (initialized s \<longrightarrow> map_option fst (loadStory s storyId) = Some (Some (Rejected e)))"
      if "map_of entries storyId = Some entry" "snd (entry_file ?F f (storyId, entry)) = Inl e" for entry e
    proof -
      from load_entry[OF idx imp that(1) mc] that(2)
      have r: "fst (loadCSFFileByStoryId s storyId) = Rejected e" by blast
      then show ?thesis
        by (auto simp: loadStory_def gate_def run_gated_def split_beta split: outcome.splits prod.splits)
    qed
    have S: "map_option fst (loadStory s storyId) = Some (Some (Rejected e))"
      if init: "initialized s" and ld: "fst (loadCSFFileByStoryId s storyId) = Resolved loadedFile"
        and pp: "prepare_pure ?P ?pa storyId (Some loadedFile) = Inl e" for loadedFile e
    proof -
      let ?s1 = "snd (loadCSFFileByStoryId s storyId)"
      note fr = same_but_loadingD[OF loadCSFFileByStoryId_frame[of s storyId]]
      from mp fr(7) have mp1: "memo_consistent (prepareStoryWithCache ?s1)" by simp
      from storyFromCSFFile_pure(1)[OF mp1, of storyId "Some loadedFile"] pp fr(3,7)
      have "fst (storyFromCSFFile ?s1 storyId (Some loadedFile)) = Inl e"
        by (cases "fst (storyFromCSFFile ?s1 storyId (Some loadedFile))") auto
      with init ld show ?thesis
        by (auto simp: loadStory_def gate_def run_gated_def split_beta split: outcome.splits prod.splits)
    qed
    have B: "(\<exists>e s'. loadAllCSFFiles batchSize s = Some (Rejected e, s') \<and>
            (\<exists>y \<in> set entries. snd (entry_file ?F f y) = Inl e)) \<and>
         (initialized s \<longrightarrow>
            (\<exists>e s'. cacheAllCSFFiles s = Some (Some (Rejected e), s') \<and>
               cachedCSFFiles s' = cachedCSFFiles s \<and>
               (\<exists>y \<in> set entries. snd (entry_file ?F f y) = Inl e)))"
      if bad: "\<exists>x \<in> set entries. isl (snd (entry_file ?F f x))" and n: "0 < batchSize"
    proof
      from bad obtain x where x: "x \<in> set entries" "isl (snd (entry_file ?F f x))" by blast
      from loadAllCSFFiles_fails[OF idx imp dist mc n x]
      show "\<exists>e s'. loadAllCSFFiles batchSize s = Some (Rejected e, s') \<and>
            (\<exists>y \<in> set entries. snd (entry_file ?F f y) = Inl e)" by blast
      have n20: "0 < EXTRACT_BATCH_SIZE" by (simp add: EXTRACT_BATCH_SIZE_def)
      from loadAllCSFFiles_fails[OF idx imp dist mc n20 x] obtain e s' where
        l: "loadAllCSFFiles EXTRACT_BATCH_SIZE s = Some (Rejected e, s')"
        and fr: "same_but_loading s s'"
        and y: "\<exists>y \<in> set entries. snd (entry_file ?F f y) = Inl e" by blast
      show "initialized s \<longrightarrow>
            (\<exists>e s'. cacheAllCSFFiles s = Some (Some (Rejected e), s') \<and>
               cachedCSFFiles s' = cachedCSFFiles s \<and>
               (\<exists>y \<in> set entries. snd (entry_file ?F f y) = Inl e))"
      proof
        assume "initialized s"
        with l have "cacheAllCSFFiles s = Some (Some (Rejected e), s')"
          by (simp add: cacheAllCSFFiles_def gate_def run_gated_def cacheAllCSFFiles_body_def)
        with same_but_loadingD(6)[OF fr] y
        show "\<exists>e s'. cacheAllCSFFiles s = Some (Some (Rejected e), s') \<and>
               cachedCSFFiles s' = cachedCSFFiles s \<and>
               (\<exists>y \<in> set entries. snd (entry_file ?F f y) = Inl e)" by blast
      qed
    qed
    have X: "fst (fromId s storyId) = Inl e \<and>
           (entry_type entry = story \<longrightarrow> isl (fst (extractStories b s)))"
      if c: "cachedCSFFiles s = Some cached" and m: "map_of entries storyId = Some entry"
        and pp: "prepare_pure ?P ?pa storyId (map_of cached (importPath entry)) = Inl e"
      for cached entry e
    proof
      from prep[OF pp] idx c m show "fst (fromId s storyId) = Inl e"
        by (simp add: fromId_def StoryIndexStore_storyIdToEntry_def split_beta split: sum.splits)
      show "entry_type entry = story \<longrightarrow> isl (fst (extractStories b s))"
      proof
        assume ty: "entry_type entry = story"
        show "isl (fst (extractStories b s))"
        proof (rule ccontr)
          assume "\<not> isl (fst (extractStories b s))"
          then obtain res where "fst (extractStories b s) = Inr res"
            by (cases "fst (extractStories b s)") auto
          with extractStories_pure[OF mp idx c, of b]
          have "extract_pure b ?P ?pa cached entries [] = Inr res" by simp
          from extract_pure_success[OF this map_of_SomeD[OF m] ty] pp show False by auto
        qed
      qed
    qed
    have D: "isl (fst (extractStories False s))"
      if c: "cachedCSFFiles s = Some cached" and m: "map_of entries storyId = Some entry"
        and ty: "entry_type entry = story"
        and pp: "prepare_pure ?P ?pa storyId (map_of cached (importPath entry)) = Inr st"
        and d: "get_member (get_prop st ''parameters'') ''docsOnly'' = Inl e"
      for cached entry st e
    proof (rule ccontr)
      assume "\<not> isl (fst (extractStories False s))"
      then obtain res where "fst (extractStories False s) = Inr res"
        by (cases "fst (extractStories False s)") auto
      with extractStories_pure[OF mp idx c, of False]
      have "extract_pure False ?P ?pa cached entries [] = Inr res" by simp
      from extract_pure_success[OF this map_of_SomeD[OF m] ty] pp d show False by auto
    qed
    have N: "map_of entries storyId = None" if "fst (fromId s storyId) = Inr None"
      using that idx
      by (auto simp: fromId_def StoryIndexStore_storyIdToEntry_def split_beta
          split: option.splits sum.splits)
    have U': "map_of entries storyId = None \<longrightarrow>
         loadCSFFileByStoryId s storyId = (Threw (NotFound storyId), s) \<and>
         (initialized s \<longrightarrow>
            storyIdToEntry s storyId = Some (Some (Rejected (NotFound storyId)), s) \<and>
            loadStory s storyId = Some (Some (Rejected (NotFound storyId)), s)) \<and>
         (cachedCSFFiles s \<noteq> None \<longrightarrow> fromId s storyId = (Inr None, s))"
      using U by (rule impI)
    have L': "\<forall>entry e.
         map_of entries storyId = Some entry \<and> snd (entry_file ?F f (storyId, entry)) = Inl e \<longrightarrow>
           fst (loadCSFFileByStoryId s storyId) = Rejected e \<and>
           (initialized s \<longrightarrow> map_option fst (loadStory s storyId) = Some (Some (Rejected e)))"
      using L by (intro allI impI) (elim conjE)
    have P': "\<forall>e. prepare_pure ?P ?pa storyId csfFile = Inl e \<longrightarrow>
           fst (storyFromCSFFile s storyId csfFile) = Inl e"
      using prep by (intro allI impI)
    have S': "\<forall>loadedFile e.
         initialized s \<and> fst (loadCSFFileByStoryId s storyId) = Resolved loadedFile \<and>
         prepare_pure ?P ?pa storyId (Some loadedFile) = Inl e \<longrightarrow>
           map_option fst (loadStory s storyId) = Some (Some (Rejected e))"
      using S by (intro allI impI) (elim conjE)
    have B': "(\<exists>x \<in> set entries. isl (snd (entry_file ?F f x))) \<and> 0 < batchSize \<longrightarrow>
         (\<exists>e s'. loadAllCSFFiles batchSize s = Some (Rejected e, s') \<and>
            (\<exists>y \<in> set entries. snd (entry_file ?F f y) = Inl e)) \<and>
         (initialized s \<longrightarrow>
            (\<exists>e s'. cacheAllCSFFiles s = Some (Some (Rejected e), s') \<and>
               cachedCSFFiles s' = cachedCSFFiles s \<and>
               (\<exists>y \<in> set entries. snd (entry_file ?F f y) = Inl e)))"
      using B by (intro impI) (elim conjE)
    have X': "\<forall>cached entry e.
         cachedCSFFiles s = Some cached \<and> map_of entries storyId = Some entry \<and>
         prepare_pure ?P ?pa storyId (map_of cached (importPath entry)) = Inl e \<longrightarrow>
           fst (fromId s storyId) = Inl e \<and>
           (entry_type entry = story \<longrightarrow> isl (fst (extractStories b s)))"
      using X by (intro allI impI) (elim conjE)
    have D': "\<forall>cached entry st e.
         cachedCSFFiles s = Some cached \<and> map_of entries storyId = Some entry \<and>
         entry_type entry = story \<and>
         prepare_pure ?P ?pa storyId (map_of cached (importPath entry)) = Inr st \<and>
         get_member (get_prop st ''parameters'') ''docsOnly'' = Inl e \<longrightarrow>
           isl (fst (extractStories False s))"
      using D by (intro allI impI) (elim conjE)
    have N': "fst (fromId s storyId) = Inr None \<longrightarrow> map_of entries storyId = None"
      using N by (rule impI)
    show ?thesis
      by (rule conjI[OF U' conjI[OF L' conjI[OF P' conjI[OF S' conjI[OF B' conjI[OF X' conjI[OF D' N']]]]]]])
  qed
  show ?thesis
    by (rule conjI[OF impI[OF G1] conjI[OF impI[OF G2] conjI[OF impI[OF G3] conjI[OF impI[OF G4] impI[OF H]]]]])
qed

theorem failures_surface_witness:
  "storyIndex ex_store = None \<and>
   loadCSFFileByStoryId ex_store ''Button--Primary'' =
     (Threw (Error ''loadCSFFileByStoryId called before initialization''), ex_store) \<and>
   loadAllCSFFiles 20 ex_store =
     Some (Threw (Error ''loadAllCSFFiles called before initialization''), ex_store) \<and>
   fromId ex_store ''Button--Primary'' = (Inl (Error ''fromId called before initialization''), ex_store) \<and>
   storyIndex ex_initialized \<noteq> None \<and> cachedCSFFiles ex_initialized = None \<and>
   fromId ex_initialized ''Button--Primary'' =
     (Inl (Error ''Cannot call fromId/raw() unless you call cacheAllCSFFiles() first.''), ex_initialized) \<and>
   storyIndex ex_cached = Some ex_index \<and> importFn ex_cached = Some ex_importFn \<and>
   distinct (map fst ex_index) \<and> memo_consistent (processCSFFileWithCache ex_cached) \<and>
   memo_consistent (prepareStoryWithCache ex_cached) \<and> initialized ex_cached \<and>
   cachedCSFFiles ex_cached = Some ex_cached_files \<and> map_of ex_index ''missing'' = None \<and>
   loadCSFFileByStoryId ex_cached ''missing'' = (Threw (NotFound ''missing''), ex_cached) \<and>
   storyIdToEntry ex_cached ''missing'' = Some (Some (Rejected (NotFound ''missing'')), ex_cached) \<and>
   loadStory ex_cached ''missing'' = Some (Some (Rejected (NotFound ''missing'')), ex_cached) \<and>
   fromId ex_cached ''missing'' = (Inr None, ex_cached) \<and>
   map_of ex_index ''Intro--docs'' =
     Some \<lparr>entry_type = docs, importPath = ''./Intro.mdx'', title = ''Intro''\<rparr> \<and>
   fst (fromId ex_cached ''Intro--docs'') =
     Inl (Error (''Didn't find '' @ [CHR 0x27] @ ''Intro--docs'' @ [CHR 0x27] @
                 '' in CSF file, this is unexpected'')) \<and>
   storyIndex ex_failing = Some ex_index \<and> importFn ex_failing = Some ex_failing_importFn \<and>
   memo_consistent (processCSFFileWithCache ex_failing) \<and>
   memo_consistent (prepareStoryWithCache ex_failing) \<and> initialized ex_failing \<and>
   map_of ex_index ''Input--Basic'' =
     Some \<lparr>entry_type = story, importPath = ''./Input.stories.js'', title = ''Input''\<rparr> \<and>
   fst (loadCSFFileByStoryId ex_failing ''Input--Basic'') = Rejected (Error ''Loading chunk failed'') \<and>
   map_option fst (loadStory ex_failing ''Input--Basic'') =
     Some (Some (Rejected (Error ''Loading chunk failed''))) \<and>
   (\<exists>e s'. cacheAllCSFFiles ex_failing = Some (Some (Rejected e), s') \<and> cachedCSFFiles s' = None)"
proof -
  let ?input = "\<lparr>entry_type = story, importPath = ''./Input.stories.js'', title = ''Input''\<rparr>"
  let ?intro = "\<lparr>entry_type = docs, importPath = ''./Intro.mdx'', title = ''Intro''\<rparr>"
  have a: "storyIndex ex_store = None" by (simp add: ex_store_def store_defs)
  have b: "storyIndex ex_initialized \<noteq> None \<and> cachedCSFFiles ex_initialized = None"
    by (simp add: ex_initialized_fields)
  have d: "distinct (map fst ex_index)" by (simp add: ex_index_def)
  have m0: "map_of ex_index ''missing'' = None" by (simp add: ex_index_def)
  have m1: "map_of ex_index ''Intro--docs'' = Some ?intro" by (simp add: ex_index_def)
  have m2: "map_of ex_index ''Input--Basic'' = Some ?input" by (simp add: ex_index_def)
  have c: "cachedCSFFiles ex_cached \<noteq> None" by (simp add: ex_cached_fields)
  have bad: "snd (entry_file (fn (processCSFFileWithCache ex_failing)) ex_failing_importFn
      (''Input--Basic'', ?input)) = Inl (Error ''Loading chunk failed'')"
    by (simp add: entry_file_def load_result_def load_of_def ex_failing_importFn_def)
  have x: "(''Input--Basic'', ?input) \<in> set ex_index" by (simp add: ex_index_def)
  from bad have bad': "\<exists>x \<in> set ex_index.
      isl (snd (entry_file (fn (processCSFFileWithCache ex_failing)) ex_failing_importFn x))"
    using x by (intro bexI[of _ "(''Input--Basic'', ?input)"]) simp_all
  note G = failures_surface[where s = ex_store and storyId = "''Button--Primary''" and batchSize = 20]
  from G[THEN conjunct1] a
  have 1: "loadCSFFileByStoryId ex_store ''Button--Primary'' =
     (Threw (Error ''loadCSFFileByStoryId called before initialization''), ex_store)" by simp
  from G[THEN conjunct2, THEN conjunct1] a
  have 2: "loadAllCSFFiles 20 ex_store =
       Some (Threw (Error ''loadAllCSFFiles called before initialization''), ex_store)"
    "fromId ex_store ''Button--Primary'' = (Inl (Error ''fromId called before initialization''), ex_store)"
    by simp_all
  from failures_surface[where s = ex_initialized and storyId = "''Button--Primary''",
      THEN conjunct2, THEN conjunct2, THEN conjunct1] b
  have 3: "fromId ex_initialized ''Button--Primary'' =
     (Inl (Error ''Cannot call fromId/raw() unless you call cacheAllCSFFiles() first.''), ex_initialized)"
    by simp
  have hc: "storyIndex ex_cached = Some ex_index \<and> importFn ex_cached = Some ex_importFn \<and>
      distinct (map fst ex_index) \<and> memo_consistent (processCSFFileWithCache ex_cached) \<and>
      memo_consistent (prepareStoryWithCache ex_cached)"
    using ex_cached_fields(1,6) d ex_cached_csf_consistent ex_cached_consistent by simp
  note C = failures_surface[where s = ex_cached and storyId = "''missing''" and entries = ex_index
      and f = ex_importFn, THEN conjunct2, THEN conjunct2, THEN conjunct2, THEN conjunct2, THEN mp, OF hc]
  from C[THEN conjunct1] m0 ex_cached_fields(7) c
  have 4: "loadCSFFileByStoryId ex_cached ''missing'' = (Threw (NotFound ''missing''), ex_cached)"
    "storyIdToEntry ex_cached ''missing'' = Some (Some (Rejected (NotFound ''missing'')), ex_cached)"
    "loadStory ex_cached ''missing'' = Some (Some (Rejected (NotFound ''missing'')), ex_cached)"
    "fromId ex_cached ''missing'' = (Inr None, ex_cached)"
    by simp_all
  note I = failures_surface[where s = ex_cached and storyId = "''Intro--docs''" and entries = ex_index
      and f = ex_importFn, THEN conjunct2, THEN conjunct2, THEN conjunct2, THEN conjunct2, THEN mp, OF hc]
  from I[THEN conjunct2, THEN conjunct2, THEN conjunct2, THEN conjunct2, THEN conjunct2, THEN conjunct1,
      rule_format, of ex_cached_files ?intro] ex_cached_fields(2) m1 ex_intro_prepare
  have 5: "fst (fromId ex_cached ''Intro--docs'') =
     Inl (Error (''Didn't find '' @ [CHR 0x27] @ ''Intro--docs'' @ [CHR 0x27] @
                 '' in CSF file, this is unexpected''))"
    by simp
  have hf: "storyIndex ex_failing = Some ex_index \<and> importFn ex_failing = Some ex_failing_importFn \<and>
      distinct (map fst ex_index) \<and> memo_consistent (processCSFFileWithCache ex_failing) \<and>
      memo_consistent (prepareStoryWithCache ex_failing)"
    using ex_failing_fields(1,2) d ex_failing_consistent ex_failing_prepare_consistent by simp
  note F = failures_surface[where s = ex_failing and storyId = "''Input--Basic''" and entries = ex_index
      and f = ex_failing_importFn and batchSize = 20,
      THEN conjunct2, THEN conjunct2, THEN conjunct2, THEN conjunct2, THEN mp, OF hf]
  from F[THEN conjunct2, THEN conjunct1, rule_format, of ?input] m2 bad ex_failing_fields(4)
  have 6: "fst (loadCSFFileByStoryId ex_failing ''Input--Basic'') = Rejected (Error ''Loading chunk failed'')"
    "map_option fst (loadStory ex_failing ''Input--Basic'') =
       Some (Some (Rejected (Error ''Loading chunk failed'')))"
    by simp_all
  from F[THEN conjunct2, THEN conjunct2, THEN conjunct2, THEN conjunct2, THEN conjunct1] bad'
    ex_failing_fields(3,4)
  have 7: "\<exists>e s'. cacheAllCSFFiles ex_failing = Some (Some (Rejected e), s') \<and> cachedCSFFiles s' = None"
    by auto
  from a b 1 2 3 hc ex_cached_fields(2,7) m0 4 m1 5 hf ex_failing_fields(4) m2 6 7
  show ?thesis by simp
qed

text \<open>
  The claim as stated fails: in the example store, initialized with all files cached,
  \<^verbatim>\<open>fromId('missing')\<close> returns \<^verbatim>\<open>null\<close> and raises nothing.
\<close>

theorem fromId_unknown_is_null:
  "fst (fromId ex_cached ''missing'') = Inr None \<and>
   map_of ex_index ''missing'' = None \<and> storyIndex ex_cached = Some ex_index \<and>
   initialize (Some ex_index) ex_importFn True ex_store = Some (Resolved RVoid, ex_cached)"
  by (simp add: ex_defs store_defs load_defs gate_defs story_defs)
section \<open>Preparing a story twice\<close>

lemma memo_call_again:
  assumes "fst (memo_call m k) = Inr v"
  shows "\<exists>v'. fst (memo_call (snd (memo_call m k)) k) = Inr v' \<and> snd v' = snd v"
proof (cases "map_of (lru m) k")
  case (Some w)
  with assms show ?thesis by (simp add: memo_call_def)
next
  case None
  show ?thesis
  proof (cases "fn m k")
    case (Inl e)
    with None assms show ?thesis by (simp add: memo_call_def)
  next
    case (Inr c)
    with None assms have v: "v = (computed m, c)" by (simp add: memo_call_def)
    show ?thesis
    proof (cases "limit m")
      case 0
      with None Inr v show ?thesis by (simp add: memo_call_def)
    next
      case (Suc n)
      with None Inr v show ?thesis by (simp add: memo_call_def)
    qed
  qed
qed

text \<open>
  Claim C5. When \<^verbatim>\<open>storyFromCSFFile\<close> has prepared a story from a CSF file, its
  argument state exists; and when the caller then changes the argument store in any way
  that leaves the story some argument values, preparing the same identifier from the
  same CSF file again succeeds, yields a story with the same content, and leaves the
  argument store as the caller made it.
\<close>

theorem preparing_twice_keeps_args:
  assumes "fst (storyFromCSFFile s storyId (Some csfFile)) = Inr st"
    and "a (story_id (snd st)) = Some current"
  shows "\<exists>st'. fst (storyFromCSFFile (snd (storyFromCSFFile s storyId (Some csfFile))\<lparr>args := a\<rparr>)
                      storyId (Some csfFile)) = Inr st' \<and>
               snd st' = snd st \<and>
               args (snd (storyFromCSFFile (snd (storyFromCSFFile s storyId (Some csfFile))\<lparr>args := a\<rparr>)
                      storyId (Some csfFile))) = a \<and>
               args (snd (storyFromCSFFile s storyId (Some csfFile))) (story_id (snd st)) \<noteq> None"
proof -
  obtain r content where csf: "csfFile = (r, content)" by (cases csfFile)
  from assms(1) obtain pa where pa: "projectAnnotations s = Some pa"
    by (auto simp: storyFromCSFFile_def split: option.splits)
  from assms(1) pa csf obtain sa where sa: "map_of (stories content) storyId = Some sa"
    by (auto simp: storyFromCSFFile_def split: option.splits)
  let ?k = "(((r, storyId), sa), (r, meta content), pa)"
  let ?m = "prepareStoryWithCache s"
  from assms(1) pa csf sa have hit: "fst (memo_call ?m ?k) = Inr st"
    by (auto simp: storyFromCSFFile_def Let_def split: sum.splits)
  from memo_call_again[OF hit] obtain st' where
    again: "fst (memo_call (snd (memo_call ?m ?k)) ?k) = Inr st'" "snd st' = snd st" by blast
  have s1: "snd (storyFromCSFFile s storyId (Some csfFile)) =
      s\<lparr>prepareStoryWithCache := snd (memo_call ?m ?k),
        args := setInitial (args s) (snd st),
        hooks := insert (story_id (snd st)) (hooks s)\<rparr>"
    using pa csf sa hit by (simp add: storyFromCSFFile_def Let_def)
  have seeded: "setInitial (args s) (snd st) (story_id (snd st)) \<noteq> None"
    by (simp add: setInitial_def split: option.splits)
  have kept: "setInitial a (snd st') = a"
    using assms(2) again(2) by (simp add: setInitial_def)
  show ?thesis
    unfolding s1 using pa csf sa again kept seeded
    by (simp add: storyFromCSFFile_def Let_def)
qed


theorem preparing_twice_keeps_args_witness:
  "fst (storyFromCSFFile ex_store ''Button--Primary'' (Some (0, ex_button_file))) = Inr (0, ex_primary) \<and>
   ((args (snd (storyFromCSFFile ex_store ''Button--Primary'' (Some (0, ex_button_file)))))
      (''Button--Primary'' \<mapsto> JObj [(''label'', JStr ''Changed'')])) (story_id ex_primary)
     = Some (JObj [(''label'', JStr ''Changed'')]) \<and>
   args (snd (storyFromCSFFile ex_store ''Button--Primary'' (Some (0, ex_button_file)))) ''Button--Primary''
     = Some (JObj [(''label'', JStr ''Button'')]) \<and>
   (\<exists>st'. fst (storyFromCSFFile
                  (snd (storyFromCSFFile ex_store ''Button--Primary'' (Some (0, ex_button_file)))
                     \<lparr>args := (args (snd (storyFromCSFFile ex_store ''Button--Primary''
                                              (Some (0, ex_button_file)))))
                                (''Button--Primary'' \<mapsto> JObj [(''label'', JStr ''Changed'')])\<rparr>)
                  ''Button--Primary'' (Some (0, ex_button_file))) = Inr st' \<and>
          snd st' = ex_primary \<and>
          args (snd (storyFromCSFFile
                  (snd (storyFromCSFFile ex_store ''Button--Primary'' (Some (0, ex_button_file)))
                     \<lparr>args := (args (snd (storyFromCSFFile ex_store ''Button--Primary''
                                              (Some (0, ex_button_file)))))
                                (''Button--Primary'' \<mapsto> JObj [(''label'', JStr ''Changed'')])\<rparr>)
                  ''Button--Primary'' (Some (0, ex_button_file)))) ''Button--Primary''
            = Some (JObj [(''label'', JStr ''Changed'')]))"
proof -
  let ?s1 = "snd (storyFromCSFFile ex_store ''Button--Primary'' (Some (0, ex_button_file)))"
  let ?a = "(args ?s1)(''Button--Primary'' \<mapsto> JObj [(''label'', JStr ''Changed'')])"
  have first: "fst (storyFromCSFFile ex_store ''Button--Primary'' (Some (0, ex_button_file)))
      = Inr (0, ex_primary)"
    by (simp add: ex_defs ex_button_file_def ex_primary_def store_defs story_defs memo_call_def)
  have sid: "story_id ex_primary = ''Button--Primary''"
    by (simp add: ex_primary_def story_id_def get_prop_def)
  have changed: "?a (story_id (snd (0 :: nat, ex_primary))) = Some (JObj [(''label'', JStr ''Changed'')])"
    by (simp add: sid)
  have seeded: "args ?s1 ''Button--Primary'' = Some (JObj [(''label'', JStr ''Button'')])"
    by (simp add: ex_defs ex_button_file_def store_defs story_defs memo_call_def)
  from preparing_twice_keeps_args[where s = ex_store and storyId = "''Button--Primary''"
      and csfFile = "(0, ex_button_file)" and st = "(0, ex_primary)" and a = "?a"
      and current = "JObj [(''label'', JStr ''Changed'')]", OF first changed]
    changed seeded first sid
  show ?thesis by auto
qed

section \<open>The extracted arguments\<close>

text \<open>
  Claim C10. The result of \<^verbatim>\<open>extract\<close> does not depend on the argument store: it is
  the same whatever values the store holds. And in the record of every story of the
  result, \<^verbatim>\<open>args\<close> is the \<^verbatim>\<open>initialArgs\<close> of the prepared story.
\<close>

theorem extract_args_are_initialArgs:
  "fst (extractStories includeDocsOnly (s\<lparr>args := a\<rparr>)) = fst (extractStories includeDocsOnly s) \<and>
   (memo_consistent (prepareStoryWithCache s) \<and>
    storyIndex s = Some entries \<and> distinct (map fst entries) \<and> cachedCSFFiles s = Some cached \<and>
    fst (extractStories includeDocsOnly s) = Inr result \<and> map_of result storyId = Some view \<longrightarrow>
      (\<exists>entry r st.
         map_of entries storyId = Some entry \<and>
         fst (storyFromCSFFile s storyId (map_of cached (importPath entry))) = Inr (r, st) \<and>
         (story_object st \<longrightarrow> map_of view ''args'' = Some (get_prop st ''initialArgs''))))"
proof -
  have "\<exists>entry r st.
         map_of entries storyId = Some entry \<and>
         fst (storyFromCSFFile s storyId (map_of cached (importPath entry))) = Inr (r, st) \<and>
         (story_object st \<longrightarrow> map_of view ''args'' = Some (get_prop st ''initialArgs''))"
    if c: "memo_consistent (prepareStoryWithCache s)"
      and i: "storyIndex s = Some entries" "distinct (map fst entries)"
      and f: "cachedCSFFiles s = Some cached"
      and r: "fst (extractStories includeDocsOnly s) = Inr result"
      and v: "map_of result storyId = Some view"
  proof -
    have pure: "extract_pure includeDocsOnly (fn (prepareStoryWithCache s)) (projectAnnotations s)
        cached entries [] = Inr result"
      using extractStories_pure[OF c i(1) f, of includeDocsOnly] r by simp
    from extract_pure_map_of[OF pure i(2), of storyId] v obtain e where e: "map_of entries storyId = Some e"
      and ev: "expected_view includeDocsOnly (fn (prepareStoryWithCache s)) (projectAnnotations s)
                 cached storyId e None = Some view"
      by (auto split: option.splits)
    from ev obtain st0 where
      p: "prepare_pure (fn (prepareStoryWithCache s)) (projectAnnotations s) storyId
            (map_of cached (importPath e)) = Inr st0"
      and vw: "view = extract_story st0"
      by (auto simp: expected_view_def split: if_splits sum.splits)
    from p prepared_by_storyFromCSFFile[OF c, of storyId "map_of cached (importPath e)" st0]
    obtain r0 where "fst (storyFromCSFFile s storyId (map_of cached (importPath e))) = Inr (r0, st0)"
      by auto
    moreover have "map_of view ''args'' = Some (get_prop st0 ''initialArgs'')" if "story_object st0"
      unfolding vw extract_story_map_of[OF that] by simp
    ultimately show ?thesis using e by blast
  qed
  with extractStories_args[where b = includeDocsOnly and s = s and a = a] show ?thesis by blast
qed

theorem extract_args_are_initialArgs_witness:
  "fst (extractStories False (ex_cached\<lparr>args := [''Button--Primary'' \<mapsto> JObj [(''label'', JStr ''Changed'')]]\<rparr>))
     = Inr [(''Button--Primary'', ex_primary_view), (''Input--Basic'', ex_input_view)] \<and>
   memo_consistent (prepareStoryWithCache ex_cached) \<and> storyIndex ex_cached = Some ex_index \<and>
   distinct (map fst ex_index) \<and> cachedCSFFiles ex_cached = Some ex_cached_files \<and>
   fst (extractStories False ex_cached) =
     Inr [(''Button--Primary'', ex_primary_view), (''Input--Basic'', ex_input_view)] \<and>
   map_of [(''Button--Primary'', ex_primary_view), (''Input--Basic'', ex_input_view)] ''Button--Primary''
     = Some ex_primary_view \<and>
   (\<exists>entry r st.
      map_of ex_index ''Button--Primary'' = Some entry \<and>
      fst (storyFromCSFFile ex_cached ''Button--Primary'' (map_of ex_cached_files (importPath entry)))
        = Inr (r, st) \<and>
      story_object st \<and> map_of ex_primary_view ''args'' = Some (get_prop st ''initialArgs'')) \<and>
   map_of ex_primary_view ''args'' = Some (JObj [(''label'', JStr ''Button'')])"
proof -
  have d: "distinct (map fst ex_index)" by (simp add: ex_index_def)
  have look: "map_of [(''Button--Primary'', ex_primary_view), (''Input--Basic'', ex_input_view)]
      ''Button--Primary'' = Some ex_primary_view" by simp
  have so: "story_object ex_primary" by (simp add: story_object_def ex_primary_def)
  note W = extract_args_are_initialArgs[where includeDocsOnly = False and s = ex_cached
      and a = "[''Button--Primary'' \<mapsto> JObj [(''label'', JStr ''Changed'')]]"
      and entries = ex_index and cached = ex_cached_files
      and result = "[(''Button--Primary'', ex_primary_view), (''Input--Basic'', ex_input_view)]"
      and storyId = "''Button--Primary''" and view = ex_primary_view]
  from W ex_cached_consistent ex_cached_fields(1,2) d ex_extract_False look
  obtain entry r st where
    e: "map_of ex_index ''Button--Primary'' = Some entry"
    and p: "fst (storyFromCSFFile ex_cached ''Button--Primary'' (map_of ex_cached_files (importPath entry)))
        = Inr (r, st)"
    and a: "story_object st \<longrightarrow> map_of ex_primary_view ''args'' = Some (get_prop st ''initialArgs'')"
    by blast
  from e have "importPath entry = ''./Button.stories.js''" by (auto simp: ex_index_def)
  with p ex_prepare_primary have st: "st = ex_primary" by simp
  with a so have "map_of ex_primary_view ''args'' = Some (get_prop st ''initialArgs'')" by simp
  with e p st so have 1: "\<exists>entry r st.
      map_of ex_index ''Button--Primary'' = Some entry \<and>
      fst (storyFromCSFFile ex_cached ''Button--Primary'' (map_of ex_cached_files (importPath entry)))
        = Inr (r, st) \<and>
      story_object st \<and> map_of ex_primary_view ''args'' = Some (get_prop st ''initialArgs'')"
    by blast
  have 2: "map_of ex_primary_view ''args'' = Some (JObj [(''label'', JStr ''Button'')])"
    by (simp add: ex_primary_view_def)
  from W ex_extract_False have 0: "fst (extractStories False
      (ex_cached\<lparr>args := [''Button--Primary'' \<mapsto> JObj [(''label'', JStr ''Changed'')]]\<rparr>))
     = Inr [(''Button--Primary'', ex_primary_view), (''Input--Basic'', ex_input_view)]" by simp
  from 0 ex_cached_consistent ex_cached_fields(1,2) d ex_extract_False look 1 2
  show ?thesis by simp
qed

section \<open>Changed stories\<close>


section \<open>The batches of loadAllCSFFiles\<close>

text \<open>
  Claim C4, as amended. On a store with an index and a loader, \<^verbatim>\<open>loadAllCSFFiles\<close>
  cuts the list of the entries of the index, in their order, into consecutive batches
  of \<^verbatim>\<open>batchSize\<close> entries (the last one may be shorter; the default of \<^verbatim>\<open>batchSize\<close>
  is \<^verbatim>\<open>EXTRACT_BATCH_SIZE\<close>, 20), and it returns. The loader sees the batches one after
  the other: for each batch, a call for the import path of every entry of the batch,
  then the settling of every one of these calls, in the order of the settling times,
  and only then the calls of the next batch (\<open>batch_events\<close>). The batches that are
  started are those up to the first batch in which a file fails to load or to be
  processed, that batch included (\<open>started_batches\<close>); when the operation resolves,
  these are all the batches, and the keys of the returned mapping are the import paths
  in the order of their first entries in the index. The cache of processed files holds
  only results of \<^verbatim>\<open>processCSFFile\<close>, and the identifiers of the index are distinct.
\<close>

theorem loadAllCSFFiles_batches:
  assumes "storyIndex s = Some entries" and "importFn s = Some f"
    and "distinct (map fst entries)"
    and "memo_consistent (processCSFFileWithCache s)" and "0 < batchSize"
  shows "concat (chunks batchSize entries) = entries \<and>
         (\<forall>es \<in> set (chunks batchSize entries). es \<noteq> [] \<and> length es \<le> batchSize) \<and>
         (\<exists>r s'. loadAllCSFFiles batchSize s = Some (r, s') \<and>
            loads s' = loads s @ concat (map (\<lambda>es. batch_events f (entry_paths es))
                         (started_batches (fn (processCSFFileWithCache s)) f (chunks batchSize entries))) \<and>
            (\<forall>m. r = Resolved m \<longrightarrow>
               started_batches (fn (processCSFFileWithCache s)) f (chunks batchSize entries) =
                 chunks batchSize entries \<and>
               map fst m = first_occurrences (entry_paths entries))) \<and>
         EXTRACT_BATCH_SIZE = 20"
proof -
  let ?F = "fn (processCSFFileWithCache s)"
  let ?ebs = "chunks batchSize entries"
  have cc: "concat ?ebs = entries" using assms(5) by (rule concat_chunks)
  have len: "\<forall>es \<in> set ?ebs. es \<noteq> [] \<and> length es \<le> batchSize"
    using chunks_length by blast
  from loadAllCSFFiles_spec[OF assms] obtain r s' where l: "loadAllCSFFiles batchSize s = Some (r, s')"
    and ev: "loads s' = loads s @ concat (map (\<lambda>es. batch_events f (entry_paths es))
                         (started_batches ?F f ?ebs))"
    and res: "\<forall>m. r = Resolved m \<longrightarrow> map file_content m = loaded_files ?F f entries"
    by blast
  have R: "started_batches ?F f ?ebs = ?ebs \<and> map fst m = first_occurrences (entry_paths entries)"
    if r: "r = Resolved m" for m
  proof
    from loadAllCSFFiles_resolved_ok[OF assms] l r
    have ok: "\<forall>x \<in> set entries. \<not> isl (snd (entry_file ?F f x))" by simp
    have "\<forall>es \<in> set ?ebs. ok_batch ?F f es"
    proof
      fix es assume "es \<in> set ?ebs"
      then have "set es \<subseteq> set (concat ?ebs)" by auto
      with cc ok show "ok_batch ?F f es" unfolding ok_batch_iff by auto
    qed
    then show "started_batches ?F f ?ebs = ?ebs" by (rule started_batches_all)
    from res r have "map file_content m = loaded_files ?F f entries" by simp
    then have "map fst (map file_content m) = map fst (loaded_files ?F f entries)" by simp
    then show "map fst m = first_occurrences (entry_paths entries)"
      unfolding file_content_keys loaded_files_keys .
  qed
  have E: "\<exists>r s'. loadAllCSFFiles batchSize s = Some (r, s') \<and>
            loads s' = loads s @ concat (map (\<lambda>es. batch_events f (entry_paths es))
                         (started_batches ?F f ?ebs)) \<and>
            (\<forall>m. r = Resolved m \<longrightarrow>
               started_batches ?F f ?ebs = ?ebs \<and> map fst m = first_occurrences (entry_paths entries))"
    by (rule exI[of _ r], rule exI[of _ s']) (use l ev R in simp)
  from cc len E show ?thesis by (simp add: EXTRACT_BATCH_SIZE_def)
qed

theorem loadAllCSFFiles_batches_witness:
  "storyIndex ex_initialized = Some ex_index \<and> importFn ex_initialized = Some ex_importFn \<and>
   distinct (map fst ex_index) \<and> memo_consistent (processCSFFileWithCache ex_initialized) \<and>
   (0 :: nat) < 2 \<and> concat (chunks 2 ex_index) = ex_index \<and>
   (\<exists>m s'. loadAllCSFFiles 2 ex_initialized = Some (Resolved m, s') \<and>
      loads s' =
        [Called ''./Button.stories.js'', Called ''./Button.stories.js'',
         Settled ''./Button.stories.js'', Settled ''./Button.stories.js'',
         Called ''./Input.stories.js'', Called ''./Intro.mdx'',
         Settled ''./Input.stories.js'', Settled ''./Intro.mdx''] \<and>
      map fst m = [''./Button.stories.js'', ''./Input.stories.js'', ''./Intro.mdx''])"
proof -
  let ?F = "fn (processCSFFileWithCache ex_initialized)"
  have d: "distinct (map fst ex_index)" by (simp add: ex_index_def)
  have n: "(0 :: nat) < 2" by simp
  have fo: "first_occurrences (entry_paths ex_index) =
      [''./Button.stories.js'', ''./Input.stories.js'', ''./Intro.mdx'']"
    by (simp add: entry_paths_def ex_index_def)
  note T = loadAllCSFFiles_batches[OF ex_initialized_fields(1,2) d ex_initialized_consistent n]
  from T have cc: "concat (chunks 2 ex_index) = ex_index" by blast
  from T obtain r s' where l: "loadAllCSFFiles 2 ex_initialized = Some (r, s')"
    and ev: "loads s' = loads ex_initialized @ concat (map (\<lambda>es. batch_events ex_importFn (entry_paths es))
                         (started_batches ?F ex_importFn (chunks 2 ex_index)))"
    and res: "\<forall>m. r = Resolved m \<longrightarrow>
               started_batches ?F ex_importFn (chunks 2 ex_index) = chunks 2 ex_index \<and>
               map fst m = first_occurrences (entry_paths ex_index)"
    by blast
  from l ex_batches_eval obtain m where r: "r = Resolved m" by auto
  from ev have ev': "loads s' =
        [Called ''./Button.stories.js'', Called ''./Button.stories.js'',
         Settled ''./Button.stories.js'', Settled ''./Button.stories.js'',
         Called ''./Input.stories.js'', Called ''./Intro.mdx'',
         Settled ''./Input.stories.js'', Settled ''./Intro.mdx'']"
    unfolding ex_initialized_fields ex_started_2 by simp
  from res r fo have k: "map fst m = [''./Button.stories.js'', ''./Input.stories.js'', ''./Intro.mdx'']"
    by simp
  have "\<exists>m s'. loadAllCSFFiles 2 ex_initialized = Some (Resolved m, s') \<and>
      loads s' =
        [Called ''./Button.stories.js'', Called ''./Button.stories.js'',
         Settled ''./Button.stories.js'', Settled ''./Button.stories.js'',
         Called ''./Input.stories.js'', Called ''./Intro.mdx'',
         Settled ''./Input.stories.js'', Settled ''./Intro.mdx''] \<and>
      map fst m = [''./Button.stories.js'', ''./Input.stories.js'', ''./Intro.mdx'']"
    by (rule exI[of _ m], rule exI[of _ s']) (use l r ev' k in simp)
  with ex_initialized_fields(1,2) d ex_initialized_consistent cc show ?thesis by simp
qed

text \<open>
  The claim as stated fails: the batches are batches of entries, not of distinct import
  paths. In the example store the first two entries share \<^verbatim>\<open>./Button.stories.js\<close>;
  with batches of two, the first batch requests that path twice, and the two other
  paths come in the second batch.
\<close>

theorem loadAllCSFFiles_repeats_shared_path:
  "storyIndex ex_initialized = Some ex_index \<and>
   entry_paths ex_index =
     [''./Button.stories.js'', ''./Button.stories.js'', ''./Input.stories.js'', ''./Intro.mdx''] \<and>
   \<not> distinct (entry_paths ex_index) \<and>
   map_option (\<lambda>(r, s'). (r, loads s')) (loadAllCSFFiles 2 ex_initialized) =
     Some (Resolved [(''./Button.stories.js'', 0, ex_button_file), (''./Input.stories.js'', 1, ex_input_file),
                     (''./Intro.mdx'', 2, ex_intro_file)],
           [Called ''./Button.stories.js'', Called ''./Button.stories.js'',
            Settled ''./Button.stories.js'', Settled ''./Button.stories.js'',
            Called ''./Input.stories.js'', Called ''./Intro.mdx'',
            Settled ''./Input.stories.js'', Settled ''./Intro.mdx''])"
proof -
  have "entry_paths ex_index =
     [''./Button.stories.js'', ''./Button.stories.js'', ''./Input.stories.js'', ''./Intro.mdx'']"
    by (simp add: entry_paths_def ex_index_def)
  with ex_batches_eval ex_initialized_fields(1) show ?thesis by simp
qed
section \<open>A failing load in a batch\<close>

text \<open>
  Claim C2, as amended. Let the loader fail for the import path of some entry of the
  index. Then \<^verbatim>\<open>loadAllCSFFiles\<close> rejects, with the failure of one of the entries, and
  returns no file. The loads of the batch with the failure are not aborted: the loader
  sees every call of that batch settle; the batches after it are not started. The
  operation leaves \<^verbatim>\<open>cachedCSFFiles\<close> as it was, and every key that it adds to the cache
  of processed files belongs to a file that the loader returned: a failed load is not
  cached. A direct load of an entry whose import path fails, by
  \<^verbatim>\<open>loadCSFFileByStoryId\<close> or (on an initialized store) by \<^verbatim>\<open>loadStory\<close>, rejects with
  the loader's error and leaves the cache of processed files as it was.
\<close>

theorem batch_failure:
  assumes "storyIndex s = Some entries" and "importFn s = Some f"
    and "distinct (map fst entries)"
    and "memo_consistent (processCSFFileWithCache s)" and "0 < batchSize"
    and "x \<in> set entries" and "isl (snd (f (importPath (snd x))))"
  shows "(\<exists>e s'. loadAllCSFFiles batchSize s = Some (Rejected e, s') \<and>
           (\<exists>y \<in> set entries. snd (entry_file (fn (processCSFFileWithCache s)) f y) = Inl e) \<and>
           loads s' = loads s @ concat (map (\<lambda>es. batch_events f (entry_paths es))
                         (started_batches (fn (processCSFFileWithCache s)) f (chunks batchSize entries))) \<and>
           cachedCSFFiles s' = cachedCSFFiles s \<and>
           (\<forall>moduleExports path t.
              (moduleExports, path, t) \<in> fst ` set (lru (processCSFFileWithCache s')) \<and>
              (moduleExports, path, t) \<notin> fst ` set (lru (processCSFFileWithCache s)) \<longrightarrow>
                snd (f path) = Inr moduleExports)) \<and>
         (\<forall>storyId entry e1.
            map_of entries storyId = Some entry \<and> snd (f (importPath entry)) = Inl e1 \<longrightarrow>
              fst (loadCSFFileByStoryId s storyId) = Rejected e1 \<and>
              processCSFFileWithCache (snd (loadCSFFileByStoryId s storyId)) = processCSFFileWithCache s \<and>
              (initialized s \<longrightarrow> map_option fst (loadStory s storyId) = Some (Some (Rejected e1))))"
proof -
  let ?F = "fn (processCSFFileWithCache s)"
  let ?ebs = "chunks batchSize entries"
  from loadAllCSFFiles_spec[OF assms(1-5)] obtain r s' where l: "loadAllCSFFiles batchSize s = Some (r, s')"
    and fr: "same_but_loading s s'"
    and ev: "loads s' = loads s @ concat (map (\<lambda>es. batch_events f (entry_paths es))
                         (started_batches ?F f ?ebs))"
    and nt: "\<forall>e. r \<noteq> Threw e"
    and rej: "\<forall>e. r = Rejected e \<longrightarrow> (\<exists>y \<in> set entries. snd (entry_file ?F f y) = Inl e)"
    by blast
  from assms(7) have bad: "isl (snd (entry_file ?F f x))"
    by (cases x) (auto simp: entry_file_def load_result_def load_of_def split: sum.splits)
  have "\<exists>e. r = Rejected e"
  proof (cases r)
    case (Resolved m)
    with loadAllCSFFiles_resolved_ok[OF assms(1-5)] l assms(6) bad show ?thesis by blast
  next
    case (Threw e)
    with nt show ?thesis by simp
  qed simp
  then obtain e where r: "r = Rejected e" ..
  from loadAllCSFFiles_keys[OF assms(1-3,5) l]
  have keys: "snd (f path) = Inr moduleExports"
    if "(moduleExports, path, t) \<in> fst ` set (lru (processCSFFileWithCache s'))"
      "(moduleExports, path, t) \<notin> fst ` set (lru (processCSFFileWithCache s))" for moduleExports path t
  proof -
    from that \<open>fst ` set (lru (processCSFFileWithCache s')) \<subseteq>
         fst ` set (lru (processCSFFileWithCache s)) \<union> loaded_keys f entries\<close>
    have "(moduleExports, path, t) \<in> loaded_keys f entries" by blast
    then show ?thesis by (auto simp: loaded_keys_def)
  qed
  have A: "\<exists>e s'. loadAllCSFFiles batchSize s = Some (Rejected e, s') \<and>
           (\<exists>y \<in> set entries. snd (entry_file ?F f y) = Inl e) \<and>
           loads s' = loads s @ concat (map (\<lambda>es. batch_events f (entry_paths es))
                         (started_batches ?F f ?ebs)) \<and>
           cachedCSFFiles s' = cachedCSFFiles s \<and>
           (\<forall>moduleExports path t.
              (moduleExports, path, t) \<in> fst ` set (lru (processCSFFileWithCache s')) \<and>
              (moduleExports, path, t) \<notin> fst ` set (lru (processCSFFileWithCache s)) \<longrightarrow>
                snd (f path) = Inr moduleExports)"
    by (rule exI[of _ e], rule exI[of _ s'])
      (use l r rej ev same_but_loadingD(6)[OF fr] keys in blast)
  have B: "fst (loadCSFFileByStoryId s storyId) = Rejected e1 \<and>
              processCSFFileWithCache (snd (loadCSFFileByStoryId s storyId)) = processCSFFileWithCache s \<and>
              (initialized s \<longrightarrow> map_option fst (loadStory s storyId) = Some (Some (Rejected e1)))"
    if "map_of entries storyId = Some entry" "snd (f (importPath entry)) = Inl e1" for storyId entry e1
  proof -
    from that assms(1,2) have
      "loadCSFFileByStoryId s storyId =
         (Rejected e1, s\<lparr>loads := loads s @ [Called (importPath entry), Settled (importPath entry)]\<rparr>)"
      by (simp add: loadCSFFileByStoryId_def start_load_def settle_load_def
          StoryIndexStore_storyIdToEntry_def)
    then show ?thesis by (simp add: loadStory_def gate_def run_gated_def)
  qed
  from A B show ?thesis by blast
qed

theorem batch_failure_witness:
  "storyIndex ex_failing = Some ex_index \<and> importFn ex_failing = Some ex_failing_importFn \<and>
   distinct (map fst ex_index) \<and> memo_consistent (processCSFFileWithCache ex_failing) \<and>
   (0 :: nat) < 2 \<and>
   (''Input--Basic'', \<lparr>entry_type = story, importPath = ''./Input.stories.js'', title = ''Input''\<rparr>)
     \<in> set ex_index \<and>
   isl (snd (ex_failing_importFn ''./Input.stories.js'')) \<and>
   (\<exists>s'. loadAllCSFFiles 2 ex_failing = Some (Rejected (Error ''Loading chunk failed''), s') \<and>
      loads s' =
        [Called ''./Button.stories.js'', Called ''./Button.stories.js'',
         Settled ''./Button.stories.js'', Settled ''./Button.stories.js'',
         Called ''./Input.stories.js'', Called ''./Intro.mdx'',
         Settled ''./Input.stories.js'', Settled ''./Intro.mdx''] \<and>
      cachedCSFFiles s' = None) \<and>
   fst (loadCSFFileByStoryId ex_failing ''Input--Basic'') = Rejected (Error ''Loading chunk failed'') \<and>
   processCSFFileWithCache (snd (loadCSFFileByStoryId ex_failing ''Input--Basic'')) =
     processCSFFileWithCache ex_failing \<and>
   map_option fst (loadStory ex_failing ''Input--Basic'') =
     Some (Some (Rejected (Error ''Loading chunk failed'')))"
proof -
  let ?F = "fn (processCSFFileWithCache ex_failing)"
  let ?x = "(''Input--Basic'', \<lparr>entry_type = story, importPath = ''./Input.stories.js'', title = ''Input''\<rparr>)"
  have d: "distinct (map fst ex_index)" by (simp add: ex_index_def)
  have n: "(0 :: nat) < 2" by simp
  have x: "?x \<in> set ex_index" by (simp add: ex_index_def)
  have bad: "isl (snd (ex_failing_importFn ''./Input.stories.js''))" by (simp add: ex_failing_importFn_def)
  from bad have bad': "isl (snd (ex_failing_importFn (importPath (snd ?x))))" by simp
  have m: "map_of ex_index ''Input--Basic'' = Some (snd ?x)" by (simp add: ex_index_def)
  have e1: "snd (ex_failing_importFn (importPath (snd ?x))) = Inl (Error ''Loading chunk failed'')"
    by (simp add: ex_failing_importFn_def)
  have only: "e = Error ''Loading chunk failed''"
    if "\<exists>y \<in> set ex_index. snd (entry_file ?F ex_failing_importFn y) = Inl e" for e
    using that
    by (simp add: ex_failing_fields ex_index_def entry_file_def load_result_def load_of_def
        ex_failing_importFn_def ex_importFn_def ex_processCSFFile_def ex_button_def ex_intro_def)
  note T = batch_failure[OF ex_failing_fields(1,2) d ex_failing_consistent n x bad']
  from T obtain e s' where l: "loadAllCSFFiles 2 ex_failing = Some (Rejected e, s')"
    and y: "\<exists>y \<in> set ex_index. snd (entry_file ?F ex_failing_importFn y) = Inl e"
    and ev: "loads s' = loads ex_failing @ concat (map (\<lambda>es. batch_events ex_failing_importFn (entry_paths es))
                         (started_batches ?F ex_failing_importFn (chunks 2 ex_index)))"
    and c: "cachedCSFFiles s' = cachedCSFFiles ex_failing"
    by blast
  from only[OF y] have e: "e = Error ''Loading chunk failed''" .
  from ev have ev': "loads s' =
        [Called ''./Button.stories.js'', Called ''./Button.stories.js'',
         Settled ''./Button.stories.js'', Settled ''./Button.stories.js'',
         Called ''./Input.stories.js'', Called ''./Intro.mdx'',
         Settled ''./Input.stories.js'', Settled ''./Intro.mdx'']"
    unfolding ex_failing_fields ex_started_failing by simp
  have A: "\<exists>s'. loadAllCSFFiles 2 ex_failing = Some (Rejected (Error ''Loading chunk failed''), s') \<and>
      loads s' =
        [Called ''./Button.stories.js'', Called ''./Button.stories.js'',
         Settled ''./Button.stories.js'', Settled ''./Button.stories.js'',
         Called ''./Input.stories.js'', Called ''./Intro.mdx'',
         Settled ''./Input.stories.js'', Settled ''./Intro.mdx''] \<and>
      cachedCSFFiles s' = None"
    by (rule exI[of _ s']) (use l e ev' c ex_failing_fields(3) in simp)
  from T m e1 ex_failing_fields(4)
  have B: "fst (loadCSFFileByStoryId ex_failing ''Input--Basic'') = Rejected (Error ''Loading chunk failed'') \<and>
   processCSFFileWithCache (snd (loadCSFFileByStoryId ex_failing ''Input--Basic'')) =
     processCSFFileWithCache ex_failing \<and>
   map_option fst (loadStory ex_failing ''Input--Basic'') =
     Some (Some (Rejected (Error ''Loading chunk failed'')))"
    by blast
  from ex_failing_fields(1,2) d ex_failing_consistent x bad A B show ?thesis by simp
qed

text \<open>
  The claim as stated fails: the batch is fail-fast, not all-settle. In the example
  store whose loader fails for \<^verbatim>\<open>./Input.stories.js\<close> only, one batch of all four
  entries lets every load settle, and yet the operation rejects with the loader's error
  and returns none of the three files that loaded. With batches of one entry, the load
  of \<^verbatim>\<open>./Intro.mdx\<close>, in the batch after the failure, is never started.
\<close>

theorem loadAllCSFFiles_is_fail_fast:
  "storyIndex ex_failing = Some ex_index \<and> importFn ex_failing = Some ex_failing_importFn \<and>
   snd (ex_failing_importFn ''./Button.stories.js'') = Inr ex_button \<and>
   snd (ex_failing_importFn ''./Input.stories.js'') = Inl (Error ''Loading chunk failed'') \<and>
   snd (ex_failing_importFn ''./Intro.mdx'') = Inr ex_intro \<and>
   map_option (\<lambda>(r, s'). (r, loads s')) (loadAllCSFFiles 20 ex_failing) =
     Some (Rejected (Error ''Loading chunk failed''),
           [Called ''./Button.stories.js'', Called ''./Button.stories.js'',
            Called ''./Input.stories.js'', Called ''./Intro.mdx'',
            Settled ''./Input.stories.js'', Settled ''./Intro.mdx'',
            Settled ''./Button.stories.js'', Settled ''./Button.stories.js'']) \<and>
   map_option (\<lambda>(r, s'). (r, loads s')) (loadAllCSFFiles 1 ex_failing) =
     Some (Rejected (Error ''Loading chunk failed''),
           [Called ''./Button.stories.js'', Settled ''./Button.stories.js'',
            Called ''./Button.stories.js'', Settled ''./Button.stories.js'',
            Called ''./Input.stories.js'', Settled ''./Input.stories.js''])"
  using ex_failing_eval20 ex_failing_eval1 ex_failing_fields(1,2)
  by (simp add: ex_failing_importFn_def ex_importFn_def)
end
